theory Spec2Isabelle
  imports Complex_Main
begin

text \<open>
  A model of \<^verbatim>\<open>ng-spring-data-rest.js\<close>, the generator of TypeScript classes and services
  from the metadata of a Spring Data REST server: the discovery of the entities
  (\<open>collectEntities\<close>), the collection of their JSON schemas (\<open>collectSchemas\<close>), the
  normalisation of the schemas (\<open>preProcessSchemas\<close>, \<open>removeTrivialTitles\<close>) and the
  resolution of references between them (\<open>resolveUrlStringReferences\<close>). The source of
  each function is quoted before its model.
\<close>

section \<open>JavaScript values\<close>

text \<open>
  The generator works on documents that the HTTP client has parsed from JSON, and it
  changes them in place. A value is modelled as the tree JavaScript holds:
  \<^item> \<open>JUndefined\<close> is the result of reading a property that is absent, and it can be
    stored (\<open>property.title = referencedSchema.title\<close> stores it when the referenced
    schema has no title);
  \<^item> \<open>JNum\<close> carries a number; the program only tests numbers for zero and compares
    them, it never computes with them;
  \<^item> \<open>JStr\<close> carries the characters of a string; the program compares strings, cuts one
    before its last \<open>#\<close> and enumerates the indices of one, and no result below depends
    on how a character outside ASCII is counted;
  \<^item> \<open>JArr xs ps\<close> is an array with the elements \<open>xs\<close> and the named (non-index)
    properties \<open>ps\<close>; a parsed array has \<open>ps = []\<close>, and
    \<open>schema.additionalProperties = false\<close> on an array adds one;
  \<^item> \<open>JObj ps\<close> is an object; \<open>ps\<close> lists its own properties in the order
    \<open>Object.keys\<close> enumerates them. An object has a key once; where a list has a key
    twice, reading and writing use the first entry.
  Writing into a value returns the new value. Parsed documents are trees: no object
  occurs twice in them, so a write through one path is never seen through another.
\<close>

datatype jsval =
    JUndefined
  | JNull
  | JBool bool
  | JNum rat
  | JStr string
  | JArr "jsval list" "(string \<times> jsval) list"
  | JObj "(string \<times> jsval) list"

text \<open>
  What the program can run into: a \<open>TypeError\<close> (reading a property of \<open>undefined\<close> or
  \<open>null\<close>, calling something that is not a function, creating a property on a
  primitive in strict mode), and \<open>process.exit(code)\<close> after \<open>console.error(message)\<close>.
\<close>

datatype failure = TypeError | Exit nat string

text \<open>\<open>if (v)\<close>, \<open>!v\<close>, \<open>v || w\<close>: the falsy values are \<open>undefined\<close>, \<open>null\<close>, \<open>false\<close>,
  \<open>0\<close> and the empty string.\<close>

fun truthy :: "jsval \<Rightarrow> bool" where
  "truthy JUndefined = False"
| "truthy JNull = False"
| "truthy (JBool b) = b"
| "truthy (JNum n) = (n \<noteq> 0)"
| "truthy (JStr s) = (s \<noteq> [])"
| "truthy (JArr xs ps) = True"
| "truthy (JObj ps) = True"

text \<open>The decimal text of an array index, as \<open>Object.keys\<close> returns it.\<close>

fun index_key :: "nat \<Rightarrow> string" where
  "index_key n =
     (if n < 10 then [char_of (48 + n)]
      else index_key (n div 10) @ [char_of (48 + n mod 10)])"

declare index_key.simps [simp del]

definition index_keys :: "nat \<Rightarrow> string list" where
  "index_keys n = map index_key [0..<n]"

text \<open>The own enumerable properties of a value, in the order of \<open>Object.keys\<close>: the
  indices of an array or a string first, then the named properties.\<close>

fun entries :: "jsval \<Rightarrow> (string \<times> jsval) list" where
  "entries (JObj ps) = ps"
| "entries (JArr xs ps) = zip (index_keys (length xs)) xs @ ps"
| "entries (JStr s) = zip (index_keys (length s)) (map (\<lambda>c. JStr [c]) s)"
| "entries v = []"

text \<open>\<open>Object.keys(v)\<close>: a \<open>TypeError\<close> on \<open>undefined\<close> and \<open>null\<close>.\<close>

fun object_keys :: "jsval \<Rightarrow> failure + string list" where
  "object_keys JUndefined = Inl TypeError"
| "object_keys JNull = Inl TypeError"
| "object_keys v = Inr (map fst (entries v))"

text \<open>The named properties of a value: a primitive has none of its own.\<close>

fun named :: "jsval \<Rightarrow> (string \<times> jsval) list" where
  "named (JObj ps) = ps"
| "named (JArr xs ps) = ps"
| "named v = []"

text \<open>Reading a key from a list of own properties: \<open>undefined\<close> when it is absent.\<close>

definition lookup :: "(string \<times> jsval) list \<Rightarrow> string \<Rightarrow> jsval" where
  "lookup ps k = (case map_of ps k of None \<Rightarrow> JUndefined | Some x \<Rightarrow> x)"

text \<open>\<open>v.k\<close> for one of the fixed names the program reads: \<open>$ref\<close>, \<open>title\<close>,
  \<open>properties\<close>, \<open>definitions\<close>, \<open>type\<close>, \<open>format\<close>, \<open>alps\<close>, \<open>descriptors\<close>,
  \<open>href\<close>, \<open>name\<close>, \<open>rt\<close>, \<open>_links\<close>. None of them is an array index and no
  prototype defines one of them, so the result is the named own property or
  \<open>undefined\<close>; the read is a \<open>TypeError\<close> on \<open>undefined\<close> and \<open>null\<close>.\<close>

fun get_prop :: "jsval \<Rightarrow> string \<Rightarrow> failure + jsval" where
  "get_prop JUndefined k = Inl TypeError"
| "get_prop JNull k = Inl TypeError"
| "get_prop v k = Inr (lookup (named v) k)"

text \<open>The value that such a read returns when it does not throw.\<close>

definition prop_of :: "jsval \<Rightarrow> string \<Rightarrow> jsval" where
  "prop_of v k = lookup (named v) k"

text \<open>\<open>v[k]\<close> for a key \<open>k\<close> taken from \<open>Object.keys(v)\<close>.\<close>

definition get_own :: "jsval \<Rightarrow> string \<Rightarrow> jsval" where
  "get_own v k = lookup (entries v) k"

text \<open>Assignment to a property of an association list of own properties: an existing
  key keeps its place, a new key goes last.\<close>

fun assign :: "string \<Rightarrow> jsval \<Rightarrow> (string \<times> jsval) list \<Rightarrow> (string \<times> jsval) list" where
  "assign k x [] = [(k, x)]"
| "assign k x ((k', y) # ps) = (if k' = k then (k, x) # ps else (k', y) # assign k x ps)"

text \<open>\<open>delete\<close> on the own properties.\<close>

fun remove_key :: "string \<Rightarrow> (string \<times> jsval) list \<Rightarrow> (string \<times> jsval) list" where
  "remove_key k [] = []"
| "remove_key k ((k', y) # ps) = (if k' = k then remove_key k ps else (k', y) # remove_key k ps)"

text \<open>\<open>v.k = x\<close> for a name \<open>k\<close> that is not an array index. The file is in strict
  mode, so creating a property on a primitive is a \<open>TypeError\<close>.\<close>

fun set_prop :: "jsval \<Rightarrow> string \<Rightarrow> jsval \<Rightarrow> failure + jsval" where
  "set_prop (JObj ps) k x = Inr (JObj (assign k x ps))"
| "set_prop (JArr xs ps) k x = Inr (JArr xs (assign k x ps))"
| "set_prop v k x = Inl TypeError"

text \<open>\<open>delete v.k\<close> for a name \<open>k\<close> that is not an array index: a \<open>TypeError\<close> on
  \<open>undefined\<close> and \<open>null\<close>, nothing to delete on another primitive.\<close>

fun delete_prop :: "jsval \<Rightarrow> string \<Rightarrow> failure + jsval" where
  "delete_prop JUndefined k = Inl TypeError"
| "delete_prop JNull k = Inl TypeError"
| "delete_prop (JObj ps) k = Inr (JObj (remove_key k ps))"
| "delete_prop (JArr xs ps) k = Inr (JArr xs (remove_key k ps))"
| "delete_prop v k = Inr v"

text \<open>The in-place change of the value held under the own key \<open>k\<close> of \<open>v\<close>, seen from
  \<open>v\<close>: the first entry of \<open>entries v\<close> with that key is replaced. A one-character string
  taken from a string is a primitive and cannot change.\<close>

fun replace_first :: "string \<Rightarrow> 'a \<Rightarrow> (string \<times> 'a) list \<Rightarrow> (string \<times> 'a) list" where
  "replace_first k x [] = []"
| "replace_first k x ((k', y) # ps) =
     (if k' = k then (k, x) # ps else (k', y) # replace_first k x ps)"

fun put_own :: "jsval \<Rightarrow> string \<Rightarrow> jsval \<Rightarrow> jsval" where
  "put_own (JObj ps) k x = JObj (replace_first k x ps)"
| "put_own (JArr xs ps) k x =
     (if k \<in> set (index_keys (length xs))
      then JArr (map snd (replace_first k x (zip (index_keys (length xs)) xs))) ps
      else JArr xs (replace_first k x ps))"
| "put_own v k x = v"

text \<open>The same for a named property.\<close>

fun put_named :: "jsval \<Rightarrow> string \<Rightarrow> jsval \<Rightarrow> jsval" where
  "put_named (JObj ps) k x = JObj (replace_first k x ps)"
| "put_named (JArr xs ps) k x = JArr xs (replace_first k x ps)"
| "put_named v k x = v"

text \<open>\<open>a === b\<close> where the two values do not come from the same document (a string or
  another primitive against a parsed value, or values of two separately parsed
  documents): primitives are equal when they are the same primitive, and an object or
  array of one document is never the object of another.\<close>

fun strict_eq :: "jsval \<Rightarrow> jsval \<Rightarrow> bool" where
  "strict_eq JUndefined JUndefined = True"
| "strict_eq JNull JNull = True"
| "strict_eq (JBool a) (JBool b) = (a = b)"
| "strict_eq (JNum a) (JNum b) = (a = b)"
| "strict_eq (JStr a) (JStr b) = (a = b)"
| "strict_eq a b = False"

text \<open>\<open>k in v\<close> for one of the fixed names: a \<open>TypeError\<close> when \<open>v\<close> is not an object.\<close>

fun js_in :: "string \<Rightarrow> jsval \<Rightarrow> failure + bool" where
  "js_in k (JObj ps) = Inr (k \<in> set (map fst ps))"
| "js_in k (JArr xs ps) = Inr (k \<in> set (map fst ps))"
| "js_in k v = Inl TypeError"


section \<open>Schema Normalizer\<close>

text \<open>
  \<^verbatim>\<open>
  function removeTrivialTitles(object) {
      for (const key of Object.keys(object)) {
          const property = object[key];
          if (!property['$ref']) {
              delete property.title;
          }
          if (property.properties) {
              removeTrivialTitles(property.properties);
          }
      }
  }
  \<close>
  \<open>rtt_property\<close> is the loop body: it returns the property as the body leaves it. The
  loop visits every own property of \<open>object\<close> once, in the order of \<open>Object.keys\<close>
  (\<open>rtt_elements\<close> for the elements of an array, \<open>rtt_entries\<close> for named properties),
  and the body changes nothing but the property it is given. The characters of a string
  are primitives, which the body leaves as they are.
\<close>

function removeTrivialTitles :: "jsval \<Rightarrow> failure + jsval"
  and rtt_entries :: "(string \<times> jsval) list \<Rightarrow> failure + (string \<times> jsval) list"
  and rtt_elements :: "jsval list \<Rightarrow> failure + jsval list"
  and rtt_property :: "jsval \<Rightarrow> failure + jsval"
where
  "removeTrivialTitles JUndefined = Inl TypeError"
| "removeTrivialTitles JNull = Inl TypeError"
| "removeTrivialTitles (JBool b) = Inr (JBool b)"
| "removeTrivialTitles (JNum n) = Inr (JNum n)"
| "removeTrivialTitles (JStr s) = Inr (JStr s)"
| "removeTrivialTitles (JArr xs ps) =
     (case rtt_elements xs of Inl e \<Rightarrow> Inl e
      | Inr xs' \<Rightarrow>
          (case rtt_entries ps of Inl e \<Rightarrow> Inl e
           | Inr ps' \<Rightarrow> Inr (JArr xs' ps')))"
| "removeTrivialTitles (JObj ps) =
     (case rtt_entries ps of Inl e \<Rightarrow> Inl e | Inr ps' \<Rightarrow> Inr (JObj ps'))"
| "rtt_entries [] = Inr []"
| "rtt_entries ((key, property) # rest) =
     (case rtt_property property of Inl e \<Rightarrow> Inl e
      | Inr property' \<Rightarrow>
          (case rtt_entries rest of Inl e \<Rightarrow> Inl e
           | Inr rest' \<Rightarrow> Inr ((key, property') # rest')))"
| "rtt_elements [] = Inr []"
| "rtt_elements (property # rest) =
     (case rtt_property property of Inl e \<Rightarrow> Inl e
      | Inr property' \<Rightarrow>
          (case rtt_elements rest of Inl e \<Rightarrow> Inl e
           | Inr rest' \<Rightarrow> Inr (property' # rest')))"
| "rtt_property property =
     (case get_prop property ''$ref'' of Inl e \<Rightarrow> Inl e
      | Inr r \<Rightarrow>
          (case (if \<not> truthy r then delete_prop property ''title'' else Inr property) of
             Inl e \<Rightarrow> Inl e
           | Inr p1 \<Rightarrow>
               (case get_prop p1 ''properties'' of Inl e \<Rightarrow> Inl e
                | Inr q \<Rightarrow>
                    if truthy q
                    then (case removeTrivialTitles q of Inl e \<Rightarrow> Inl e
                          | Inr q' \<Rightarrow> Inr (put_named p1 ''properties'' q'))
                    else Inr p1)))"
  by pat_completeness auto

lemma size_map_of:
  "map_of ps k = Some v \<Longrightarrow> size v < size_list (size_prod (\<lambda>x. 0) size) ps"
  by (induction ps) (auto split: if_splits)

lemma map_of_remove_key:
  "map_of (remove_key k ps) k' = (if k' = k then None else map_of ps k')"
  by (induction ps) auto

lemma size_lookup_named:
  "truthy (lookup (named v) k) \<Longrightarrow> size (lookup (named v) k) < size v"
  by (cases v) (auto simp: lookup_def dest: size_map_of split: option.splits)

lemma named_delete_prop:
  "delete_prop v k = Inr v' \<Longrightarrow> named v' = remove_key k (named v)"
  by (cases v) auto

lemma size_delete_prop:
  "delete_prop v k = Inr v' \<Longrightarrow> truthy (lookup (named v') k') \<Longrightarrow>
   size (lookup (named v') k') < size v"
  using size_lookup_named [of v k']
  by (auto simp: lookup_def named_delete_prop map_of_remove_key split: if_splits)

lemma get_prop_Inr: "get_prop v k = Inr x \<Longrightarrow> x = lookup (named v) k"
  by (cases v) auto

termination removeTrivialTitles
proof (relation "measure (\<lambda>x. case x of
          Inl (Inl v) \<Rightarrow> size v
        | Inl (Inr ps) \<Rightarrow> size_list (size_prod (\<lambda>x. 0) size) ps
        | Inr (Inl xs) \<Rightarrow> size_list size xs
        | Inr (Inr p) \<Rightarrow> size p)", goal_cases)
  case (9 property r p1 q)
  then show ?case
    by (auto dest!: get_prop_Inr split: if_splits
             intro: size_lookup_named size_delete_prop)
qed auto

declare rtt_property.simps [simp del]

text \<open>
  \<^verbatim>\<open>
  function preProcessSchemas(schemas, config) {
      for (const schema of schemas) {
          if (config.noAdditionalProperties) {
              schema.additionalProperties = false;
          }
          if (config.noTrivialTypes) {
              removeTrivialTitles(schema.properties || {});
              removeTrivialTitles(schema.definitions || {});
          }
      }
  }
  \<close>
  The two flags are the command line's booleans. \<open>strip_under schema k\<close> is
  \<open>removeTrivialTitles(schema.k || {})\<close> seen from \<open>schema\<close>: when \<open>schema.k\<close> is falsy
  the call works on a fresh empty object that nothing else refers to.
  \<open>preProcessSchema\<close> is the loop body. The schemas are the separately parsed bodies of
  separate responses, so the list is modelled by value; an exception ends the run.
\<close>

record config =
  noAdditionalProperties :: bool
  noTrivialTypes :: bool

definition strip_under :: "jsval \<Rightarrow> string \<Rightarrow> failure + jsval" where
  "strip_under schema k =
     (case get_prop schema k of Inl e \<Rightarrow> Inl e
      | Inr q \<Rightarrow>
          (case removeTrivialTitles (if truthy q then q else JObj []) of Inl e \<Rightarrow> Inl e
           | Inr q' \<Rightarrow> Inr (if truthy q then put_named schema k q' else schema)))"

definition preProcessSchema :: "config \<Rightarrow> jsval \<Rightarrow> failure + jsval" where
  "preProcessSchema cfg schema =
     (case (if noAdditionalProperties cfg
            then set_prop schema ''additionalProperties'' (JBool False)
            else Inr schema) of
        Inl e \<Rightarrow> Inl e
      | Inr s1 \<Rightarrow>
          if noTrivialTypes cfg
          then (case strip_under s1 ''properties'' of Inl e \<Rightarrow> Inl e
                | Inr s2 \<Rightarrow> strip_under s2 ''definitions'')
          else Inr s1)"

fun preProcessSchemas :: "jsval list \<Rightarrow> config \<Rightarrow> failure + jsval list" where
  "preProcessSchemas [] cfg = Inr []"
| "preProcessSchemas (schema # rest) cfg =
     (case preProcessSchema cfg schema of Inl e \<Rightarrow> Inl e
      | Inr schema' \<Rightarrow>
          (case preProcessSchemas rest cfg of Inl e \<Rightarrow> Inl e
           | Inr rest' \<Rightarrow> Inr (schema' # rest')))"

text \<open>A property by its path below a \<open>properties\<close> map \<open>object\<close>: the path
  \<open>[k1, k2, k3]\<close> names \<open>object[k1].properties[k2].properties[k3]\<close>. Reading below a
  value that is absent gives \<open>undefined\<close>.\<close>

fun property_at :: "jsval \<Rightarrow> string list \<Rightarrow> jsval" where
  "property_at object [] = JUndefined"
| "property_at object [k] = get_own object k"
| "property_at object (k # ks) = property_at (prop_of (get_own object k) ''properties'') ks"

section \<open>Metadata Client\<close>

text \<open>
  \<open>axiosInstance.get(url, {headers: {'Accept': a}})\<close> is the program's one way to the
  server. A client is modelled as a function from the state \<open>'w\<close> of everything outside
  the program (server, network, cookies) and the request to the outcome and the next
  state: \<open>None\<close> is a rejected promise (no answer, a timeout, an error status),
  \<open>Some data\<close> is \<open>response.data\<close>. The URL is the value the program passes, whatever it
  is; the \<open>Accept\<close> header is absent in the request for the profile.
\<close>

type_synonym 'w client = "'w \<Rightarrow> jsval \<Rightarrow> string option \<Rightarrow> jsval option \<times> 'w"

section \<open>Entity Discovery\<close>

text \<open>
  \<^verbatim>\<open>
  function collectEntities() {
      return axiosInstance.get('profile')
          .then(response => {
              if (!('_links' in response.data)) {
                  console.error(
                      'Response does not contain _links element. Could not collect entities.');
                  process.exit(4);
              }
              return Object.keys(response.data._links)
                  .filter(k => k !== 'self')
                  .map(k => ({
                      name: k,
                      href: response.data._links[k].href
                  }));
          })
          .catch(() => {
              console.error('Collecting entities failed.');
              process.exit(3);
          });
  }
  \<close>
  \<open>process.exit(4)\<close> ends the process inside the callback. A \<open>TypeError\<close> thrown in the
  callback rejects the promise and reaches the \<open>catch\<close>, as a rejected request does.
\<close>

record entity =
  name :: string
  href :: jsval

text \<open>The callback of \<open>map\<close>, applied in order; the first exception ends the loop.\<close>

fun link_entities :: "jsval \<Rightarrow> string list \<Rightarrow> failure + entity list" where
  "link_entities links [] = Inr []"
| "link_entities links (k # ks) =
     (case get_prop (get_own links k) ''href'' of Inl e \<Rightarrow> Inl e
      | Inr h \<Rightarrow>
          (case link_entities links ks of Inl e \<Rightarrow> Inl e
           | Inr es \<Rightarrow> Inr (\<lparr>name = k, href = h\<rparr> # es)))"

text \<open>The callback of \<open>then\<close>.\<close>

definition entities_of_profile :: "jsval \<Rightarrow> failure + entity list" where
  "entities_of_profile data =
     (case js_in ''_links'' data of Inl e \<Rightarrow> Inl e
      | Inr False \<Rightarrow>
          Inl (Exit 4 ''Response does not contain _links element. Could not collect entities.'')
      | Inr True \<Rightarrow>
          (case get_prop data ''_links'' of Inl e \<Rightarrow> Inl e
           | Inr links \<Rightarrow>
               (case object_keys links of Inl e \<Rightarrow> Inl e
                | Inr ks \<Rightarrow> link_entities links (filter (\<lambda>k. k \<noteq> ''self'') ks))))"

definition collectEntities :: "'w client \<Rightarrow> 'w \<Rightarrow> failure + entity list \<times> 'w" where
  "collectEntities client w =
     (case client w (JStr ''profile'') None of
        (None, w') \<Rightarrow> Inl (Exit 3 ''Collecting entities failed.'')
      | (Some data, w') \<Rightarrow>
          (case entities_of_profile data of
             Inl TypeError \<Rightarrow> Inl (Exit 3 ''Collecting entities failed.'')
           | Inl (Exit code message) \<Rightarrow> Inl (Exit code message)
           | Inr entities \<Rightarrow> Inr (entities, w')))"

section \<open>Schema Collector\<close>

text \<open>
  \<^verbatim>\<open>
  async function collectSchemas(entities) {
      const schemas = [];
      console.log('Collecting schemas.');
      for (const entity of entities) {
          await axiosInstance.get(entity.href, {headers: {'Accept': 'application/schema+json'}})
              .then(response => {
                  schemas.push(response.data);
              })
              .catch(() => {
                  console.error(`Could not collect schema for '${entity.name}'.`);
                  process.exit(4);
              });
      }
      return schemas;
  }
  \<close>
  \<open>collect_loop\<close> is the \<open>for\<close> loop with the array \<open>schemas\<close> built so far; each request is
  awaited before the next one is sent, so the state of the outside is threaded through.
\<close>

definition fetch_schema :: "'w client \<Rightarrow> 'w \<Rightarrow> entity \<Rightarrow> jsval option \<times> 'w" where
  "fetch_schema client w entity = client w (href entity) (Some ''application/schema+json'')"

definition collect_failed :: "entity \<Rightarrow> failure" where
  "collect_failed entity =
     Exit 4 (''Could not collect schema for '' @ [CHR 0x27] @ name entity @ [CHR 0x27] @ ''.'')"

fun collect_loop ::
  "'w client \<Rightarrow> 'w \<Rightarrow> jsval list \<Rightarrow> entity list \<Rightarrow> failure + jsval list \<times> 'w" where
  "collect_loop client w schemas [] = Inr (schemas, w)"
| "collect_loop client w schemas (entity # rest) =
     (case fetch_schema client w entity of
        (None, w') \<Rightarrow> Inl (collect_failed entity)
      | (Some data, w') \<Rightarrow> collect_loop client w' (schemas @ [data]) rest)"

definition collectSchemas :: "'w client \<Rightarrow> 'w \<Rightarrow> entity list \<Rightarrow> failure + jsval list \<times> 'w" where
  "collectSchemas client w entities = collect_loop client w [] entities"

text \<open>The state of the outside before the request for the entity at index \<open>i\<close>: the requests
  for the entities before it have been answered, in order.\<close>

fun state_before :: "'w client \<Rightarrow> 'w \<Rightarrow> entity list \<Rightarrow> nat \<Rightarrow> 'w" where
  "state_before client w entities 0 = w"
| "state_before client w [] (Suc i) = w"
| "state_before client w (entity # rest) (Suc i) =
     state_before client (snd (fetch_schema client w entity)) rest i"

section \<open>Reference Resolver\<close>

text \<open>
  \<^verbatim>\<open>
  async function resolveUrlStringReferences(entity, schema, entities, schemas) {
      console.log('Collecting schema references.');
      return axiosInstance.get(entity.href, {headers: {'Accept': 'application/alps+json'}})
          .then(response => {
              const descriptors = response.data.alps.descriptors;
              const entityDescriptors = descriptors.find(d => d.href === entity.href).descriptors;
              const properties = schema.properties;
              const relevantPropertyNames = Object.keys(schema.properties)
                  .filter(k => properties[k].type === 'string' && properties[k].format === 'uri');
              const referencedSchemas = [];
              relevantPropertyNames.forEach(k => {
                  const property = properties[k];
                  property.type = 'object';
                  delete property.format;
                  let referencedHref = entityDescriptors.find(d => d.name === k).rt;
                  referencedHref = referencedHref.substr(0, referencedHref.lastIndexOf('#'));
                  const referencedEntity = entities.find(e => e.href === referencedHref);
                  const referencedSchema = schemas[entities.indexOf(referencedEntity)];
                  property.title = referencedSchema.title;
                  if (referencedSchema !== schema) {
                      referencedSchemas.push(referencedSchema);
                  }
              });
              return referencedSchemas;
          })
          .catch((e) => {
              console.error(`Could not collect schema references for '${entity.name}'.`);
              process.exit(4);
          });
  }
  \<close>
  The resolver compares schemas by identity (\<open>referencedSchema !== schema\<close>) and changes
  \<open>schema\<close> while \<open>schemas\<close> holds the same object, so the schema documents live in a store:
  an address stands for one object, \<open>schemas\<close> and the returned array are lists of
  addresses, and \<open>schema\<close> is an address. The comparison is reached only after
  \<open>Object.keys(schema.properties)\<close> has succeeded, that is when \<open>schema\<close> is an object or an
  array, and then \<open>referencedSchema !== schema\<close> holds exactly when the addresses differ.
  The entities are the objects \<open>{name, href}\<close> that \<open>collectEntities\<close> built.
\<close>

type_synonym addr = nat

type_synonym store = "addr \<Rightarrow> jsval"

text \<open>\<open>Array.prototype.find\<close>: the first element for which the callback returns true; an
  exception in the callback ends the search.\<close>

fun find_first :: "(jsval \<Rightarrow> failure + bool) \<Rightarrow> jsval list \<Rightarrow> failure + jsval" where
  "find_first p [] = Inr JUndefined"
| "find_first p (d # ds) =
     (case p d of Inl e \<Rightarrow> Inl e
      | Inr True \<Rightarrow> Inr d
      | Inr False \<Rightarrow> find_first p ds)"

text \<open>\<open>v.find(p)\<close> on a parsed value: only an array has the method.\<close>

fun array_find :: "jsval \<Rightarrow> (jsval \<Rightarrow> failure + bool) \<Rightarrow> failure + jsval" where
  "array_find (JArr ds ps) p =
     (if ''find'' \<in> set (map fst ps) then Inl TypeError else find_first p ds)"
| "array_find v p = Inl TypeError"

text \<open>\<open>d => d.href === entity.href\<close> and \<open>d => d.name === k\<close>.\<close>

definition has_href :: "jsval \<Rightarrow> jsval \<Rightarrow> failure + bool" where
  "has_href h d = (case get_prop d ''href'' of Inl e \<Rightarrow> Inl e | Inr x \<Rightarrow> Inr (strict_eq x h))"

definition has_name :: "string \<Rightarrow> jsval \<Rightarrow> failure + bool" where
  "has_name k d =
     (case get_prop d ''name'' of Inl e \<Rightarrow> Inl e | Inr x \<Rightarrow> Inr (strict_eq x (JStr k)))"

text \<open>\<open>response.data.alps.descriptors.find(d => d.href === entity.href).descriptors\<close>.\<close>

definition entity_descriptors :: "jsval \<Rightarrow> entity \<Rightarrow> failure + jsval" where
  "entity_descriptors data entity =
     (case get_prop data ''alps'' of Inl e \<Rightarrow> Inl e
      | Inr alps \<Rightarrow>
          (case get_prop alps ''descriptors'' of Inl e \<Rightarrow> Inl e
           | Inr descriptors \<Rightarrow>
               (case array_find descriptors (has_href (href entity)) of Inl e \<Rightarrow> Inl e
                | Inr d \<Rightarrow> get_prop d ''descriptors'')))"

text \<open>\<open>k => properties[k].type === 'string' && properties[k].format === 'uri'\<close>, and
  \<open>filter\<close> with a callback that can throw.\<close>

definition is_uri_string :: "jsval \<Rightarrow> string \<Rightarrow> failure + bool" where
  "is_uri_string properties k =
     (case get_prop (get_own properties k) ''type'' of Inl e \<Rightarrow> Inl e
      | Inr t \<Rightarrow>
          if strict_eq t (JStr ''string'')
          then (case get_prop (get_own properties k) ''format'' of Inl e \<Rightarrow> Inl e
                | Inr f \<Rightarrow> Inr (strict_eq f (JStr ''uri'')))
          else Inr False)"

fun filter_keys :: "(string \<Rightarrow> failure + bool) \<Rightarrow> string list \<Rightarrow> failure + string list" where
  "filter_keys p [] = Inr []"
| "filter_keys p (k # ks) =
     (case p k of Inl e \<Rightarrow> Inl e
      | Inr b \<Rightarrow>
          (case filter_keys p ks of Inl e \<Rightarrow> Inl e
           | Inr ks' \<Rightarrow> Inr (if b then k # ks' else ks')))"

text \<open>\<open>s.substr(0, s.lastIndexOf('#'))\<close>: \<open>lastIndexOf\<close> returns \<open>-1\<close> when there is no
  \<open>#\<close>, and \<open>substr\<close> with a negative length returns the empty string. The prefix before
  the last \<open>#\<close> is the same whether the string is counted in bytes or in UTF-16 units.\<close>

fun last_index_of :: "char \<Rightarrow> string \<Rightarrow> nat option" where
  "last_index_of c [] = None"
| "last_index_of c (x # xs) =
     (case last_index_of c xs of
        Some i \<Rightarrow> Some (Suc i)
      | None \<Rightarrow> if x = c then Some 0 else None)"

definition strip_fragment :: "string \<Rightarrow> string" where
  "strip_fragment s = (case last_index_of (CHR ''#'') s of None \<Rightarrow> [] | Some i \<Rightarrow> take i s)"

text \<open>\<open>entityDescriptors.find(d => d.name === k).rt\<close> with its fragment stripped. Only a
  string has both \<open>lastIndexOf\<close> and \<open>substr\<close>.\<close>

definition referenced_href :: "jsval \<Rightarrow> string \<Rightarrow> failure + string" where
  "referenced_href entityDescriptors k =
     (case array_find entityDescriptors (has_name k) of Inl e \<Rightarrow> Inl e
      | Inr d \<Rightarrow>
          (case get_prop d ''rt'' of Inl e \<Rightarrow> Inl e
           | Inr (JStr s) \<Rightarrow> Inr (strip_fragment s)
           | Inr other \<Rightarrow> Inl TypeError))"

text \<open>\<open>entities.indexOf(x)\<close> for \<open>x\<close> the result of \<open>entities.find\<close>: \<open>-1\<close> for \<open>undefined\<close>,
  else the first index that holds the object found. The entities are compared as
  values here: an earlier entity equal to the one found has the same \<open>href\<close>, so \<open>find\<close>
  would have returned it.\<close>

fun first_index :: "'a \<Rightarrow> 'a list \<Rightarrow> int" where
  "first_index x [] = - 1"
| "first_index x (y # ys) =
     (if y = x then 0 else (let i = first_index x ys in if i < 0 then - 1 else i + 1))"

definition index_of :: "entity list \<Rightarrow> entity option \<Rightarrow> int" where
  "index_of entities found = (case found of None \<Rightarrow> - 1 | Some e \<Rightarrow> first_index e entities)"

text \<open>\<open>schemas[i]\<close>: \<open>undefined\<close> outside the array.\<close>

definition schema_at :: "addr list \<Rightarrow> int \<Rightarrow> addr option" where
  "schema_at schemas i =
     (if 0 \<le> i \<and> nat i < length schemas then Some (schemas ! nat i) else None)"

text \<open>\<open>schema.properties\<close>, and the change of the object \<open>schema.properties[k]\<close> seen from
  the store.\<close>

definition properties_of :: "store \<Rightarrow> addr \<Rightarrow> jsval" where
  "properties_of store schema = prop_of (store schema) ''properties''"

definition write_property :: "store \<Rightarrow> addr \<Rightarrow> string \<Rightarrow> jsval \<Rightarrow> store" where
  "write_property store schema k property =
     store(schema := put_named (store schema) ''properties''
                       (put_own (properties_of store schema) k property))"

text \<open>The callback of \<open>forEach\<close>, on the store and the array \<open>referencedSchemas\<close>. Reading
  \<open>.title\<close> of \<open>undefined\<close> (no entity matched, or no schema at its index) throws.\<close>

definition resolve_property ::
  "jsval \<Rightarrow> entity list \<Rightarrow> addr list \<Rightarrow> addr \<Rightarrow> string \<Rightarrow> store \<times> addr list
     \<Rightarrow> failure + store \<times> addr list" where
  "resolve_property entityDescriptors entities schemas schema k st =
     (case st of (store, referencedSchemas) \<Rightarrow>
      (case set_prop (get_own (properties_of store schema) k) ''type'' (JStr ''object'') of
         Inl e \<Rightarrow> Inl e
       | Inr p1 \<Rightarrow>
      (case delete_prop p1 ''format'' of Inl e \<Rightarrow> Inl e
       | Inr p2 \<Rightarrow>
      (case referenced_href entityDescriptors k of Inl e \<Rightarrow> Inl e
       | Inr referencedHref \<Rightarrow>
      (case schema_at schemas
              (index_of entities
                 (find (\<lambda>e. strict_eq (href e) (JStr referencedHref)) entities)) of
         None \<Rightarrow> Inl TypeError
       | Some referencedSchema \<Rightarrow>
      (case get_prop (write_property store schema k p2 referencedSchema) ''title'' of
         Inl e \<Rightarrow> Inl e
       | Inr title \<Rightarrow>
      (case set_prop p2 ''title'' title of Inl e \<Rightarrow> Inl e
       | Inr p3 \<Rightarrow>
           Inr (write_property store schema k p3,
                if referencedSchema \<noteq> schema
                then referencedSchemas @ [referencedSchema]
                else referencedSchemas))))))))"

fun resolve_loop ::
  "jsval \<Rightarrow> entity list \<Rightarrow> addr list \<Rightarrow> addr \<Rightarrow> string list \<Rightarrow> store \<times> addr list
     \<Rightarrow> failure + store \<times> addr list" where
  "resolve_loop entityDescriptors entities schemas schema [] st = Inr st"
| "resolve_loop entityDescriptors entities schemas schema (k # ks) st =
     (case resolve_property entityDescriptors entities schemas schema k st of
        Inl e \<Rightarrow> Inl e
      | Inr st' \<Rightarrow> resolve_loop entityDescriptors entities schemas schema ks st')"

text \<open>The callback of \<open>then\<close>.\<close>

definition resolve_references ::
  "store \<Rightarrow> entity \<Rightarrow> addr \<Rightarrow> entity list \<Rightarrow> addr list \<Rightarrow> jsval
     \<Rightarrow> failure + addr list \<times> store" where
  "resolve_references store entity schema entities schemas data =
     (case entity_descriptors data entity of Inl e \<Rightarrow> Inl e
      | Inr entityDescriptors \<Rightarrow>
      (case get_prop (store schema) ''properties'' of Inl e \<Rightarrow> Inl e
       | Inr properties \<Rightarrow>
      (case object_keys properties of Inl e \<Rightarrow> Inl e
       | Inr ks \<Rightarrow>
      (case filter_keys (is_uri_string properties) ks of Inl e \<Rightarrow> Inl e
       | Inr relevantPropertyNames \<Rightarrow>
      (case resolve_loop entityDescriptors entities schemas schema
              relevantPropertyNames (store, []) of
         Inl e \<Rightarrow> Inl e
       | Inr (store', referencedSchemas) \<Rightarrow> Inr (referencedSchemas, store'))))))"

definition resolve_failed :: "entity \<Rightarrow> failure" where
  "resolve_failed entity =
     Exit 4 (''Could not collect schema references for '' @ [CHR 0x27] @ name entity
             @ [CHR 0x27] @ ''.'')"

text \<open>The \<open>catch\<close> follows the \<open>then\<close>: it receives a rejected request and also every
  exception thrown in the callback.\<close>

definition resolveUrlStringReferences ::
  "'w client \<Rightarrow> 'w \<Rightarrow> store \<Rightarrow> entity \<Rightarrow> addr \<Rightarrow> entity list \<Rightarrow> addr list
     \<Rightarrow> failure + addr list \<times> store \<times> 'w" where
  "resolveUrlStringReferences client w store entity schema entities schemas =
     (case client w (href entity) (Some ''application/alps+json'') of
        (None, w') \<Rightarrow> Inl (resolve_failed entity)
      | (Some data, w') \<Rightarrow>
          (case resolve_references store entity schema entities schemas data of
             Inl e \<Rightarrow> Inl (resolve_failed entity)
           | Inr (referencedSchemas, store') \<Rightarrow> Inr (referencedSchemas, store', w')))"

text \<open>The schema that the callback of \<open>forEach\<close> arrives at for the property \<open>k\<close>:
  \<open>schemas[entities.indexOf(entities.find(e => e.href === referencedHref))]\<close>, where it is
  not \<open>undefined\<close>.\<close>

definition referenced_schema ::
  "jsval \<Rightarrow> entity list \<Rightarrow> addr list \<Rightarrow> string \<Rightarrow> failure + addr" where
  "referenced_schema entityDescriptors entities schemas k =
     (case referenced_href entityDescriptors k of Inl e \<Rightarrow> Inl e
      | Inr referencedHref \<Rightarrow>
          (case schema_at schemas
                  (index_of entities
                     (find (\<lambda>e. strict_eq (href e) (JStr referencedHref)) entities)) of
             None \<Rightarrow> Inl TypeError
           | Some referencedSchema \<Rightarrow> Inr referencedSchema))"

section \<open>Predicates used in the proofs\<close>

text \<open>The values that can hold properties of their own.\<close>

fun is_object :: "jsval \<Rightarrow> bool" where
  "is_object (JObj ps) = True"
| "is_object (JArr xs ps) = True"
| "is_object v = False"

text \<open>An entry before and after the loop body of \<open>removeTrivialTitles\<close> has run on its
  value.\<close>

definition visited :: "(string \<times> jsval) \<Rightarrow> (string \<times> jsval) \<Rightarrow> bool" where
  "visited e e' \<longleftrightarrow> fst e' = fst e \<and> rtt_property (snd e) = Inr (snd e')"

text \<open>A property as the resolver leaves it, with the title \<open>t\<close>.\<close>

definition retyped :: "jsval \<Rightarrow> jsval \<Rightarrow> bool" where
  "retyped p t \<longleftrightarrow>
     prop_of p ''type'' = JStr ''object'' \<and> ''format'' \<notin> fst ` set (named p) \<and>
     prop_of p ''title'' = t"

section \<open>Properties of the Schema Normalizer\<close>

subsection \<open>Own properties as association lists\<close>

lemma lookup_Nil [simp]: "lookup [] k = JUndefined"
  by (simp add: lookup_def)

lemma lookup_Cons [simp]: "lookup ((k', y) # ps) k = (if k' = k then y else lookup ps k)"
  by (simp add: lookup_def)

lemma lookup_remove_key [simp]:
  "lookup (remove_key k ps) k' = (if k' = k then JUndefined else lookup ps k')"
  by (induction ps) auto

lemma lookup_replace_first:
  "lookup (replace_first k x ps) k' = (if k' = k \<and> k \<in> fst ` set ps then x else lookup ps k')"
  by (induction ps) (auto simp: rev_image_eqI)

lemma lookup_absent: "k \<notin> fst ` set ps \<Longrightarrow> lookup ps k = JUndefined"
  by (induction ps) auto

lemma truthy_in_keys: "truthy (lookup ps k) \<Longrightarrow> k \<in> fst ` set ps"
  using lookup_absent by fastforce

lemma lookup_assign:
  "lookup (assign k x ps) k' = (if k' = k then x else lookup ps k')"
  by (induction ps) auto

lemma remove_key_idem [simp]: "remove_key k (remove_key k ps) = remove_key k ps"
  by (induction ps) auto

lemma remove_key_replace_first:
  "k \<noteq> k' \<Longrightarrow> remove_key k (replace_first k' x ps) = replace_first k' x (remove_key k ps)"
  by (induction ps) auto

lemma replace_first_idem [simp]:
  "replace_first k x (replace_first k y ps) = replace_first k x ps"
  by (induction ps) auto

lemma replace_first_commute:
  "k \<noteq> k' \<Longrightarrow>
   replace_first k x (replace_first k' y ps) = replace_first k' y (replace_first k x ps)"
  by (induction ps) auto

lemma assign_replace_first:
  "k \<noteq> k' \<Longrightarrow> assign k x (replace_first k' y ps) = replace_first k' y (assign k x ps)"
  by (induction ps) auto

lemma assign_idem [simp]: "assign k x (assign k y ps) = assign k x ps"
  by (induction ps) auto

lemma map_fst_replace_first: "map fst (replace_first k x ps) = map fst ps"
  by (induction ps) auto

lemma map_fst_remove_key: "map fst (remove_key k ps) = filter (\<lambda>k'. k' \<noteq> k) (map fst ps)"
  by (induction ps) auto

lemma keys_replace_first [simp]: "fst ` set (replace_first k x ps) = fst ` set ps"
  using map_fst_replace_first [of k x ps] by (metis set_map)

lemma keys_remove_key [simp]: "fst ` set (remove_key k ps) = fst ` set ps - {k}"
proof -
  have "set (map fst (remove_key k ps)) = set (map fst ps) - {k}"
    by (auto simp: map_fst_remove_key)
  then show ?thesis by simp
qed

subsection \<open>Reading and writing values\<close>

lemma prop_of_undefined [simp]: "prop_of JUndefined k = JUndefined"
  by (simp add: prop_of_def)

lemma named_put_named [simp]: "named (put_named v k x) = replace_first k x (named v)"
  by (cases v) auto

lemma put_named_idem [simp]: "put_named (put_named v k x) k y = put_named v k y"
  by (cases v) auto

lemma put_named_commute:
  "k \<noteq> k' \<Longrightarrow> put_named (put_named v k' y) k x = put_named (put_named v k x) k' y"
  by (cases v) (auto simp: replace_first_commute)

lemma put_named_defined [simp]:
  "put_named v k x = JUndefined \<longleftrightarrow> v = JUndefined"
  "put_named v k x = JNull \<longleftrightarrow> v = JNull"
  by (cases v; simp)+

lemma delete_prop_twice: "delete_prop v k = Inr v1 \<Longrightarrow> delete_prop v1 k = Inr v1"
  by (cases v) auto

lemma delete_prop_replace:
  "delete_prop v k = Inr v1 \<Longrightarrow> k \<noteq> k' \<Longrightarrow>
   delete_prop (put_named v1 k' x) k = Inr (put_named v1 k' x)"
  by (cases v) (auto simp: remove_key_replace_first)

lemma delete_prop_defined:
  "delete_prop v k = Inr v1 \<Longrightarrow> v1 \<noteq> JUndefined \<and> v1 \<noteq> JNull"
  by (cases v) auto

lemma lookup_delete_prop:
  "delete_prop v k = Inr v1 \<Longrightarrow>
   lookup (named v1) k' = (if k' = k then JUndefined else lookup (named v) k')"
  by (cases v) auto

lemma set_prop_twice: "set_prop v k x = Inr v1 \<Longrightarrow> set_prop v1 k x = Inr v1"
  by (cases v) auto

lemma set_prop_put_named:
  "set_prop v k x = Inr v \<Longrightarrow> k \<noteq> k' \<Longrightarrow> set_prop (put_named v k' y) k x = Inr (put_named v k' y)"
  by (cases v) (auto simp: assign_replace_first)

lemma set_prop_frame:
  assumes "set_prop s k x = Inr s'" and "k' \<noteq> k"
  shows "prop_of s' k' = prop_of s k'"
  using assms by (cases s) (auto simp: prop_of_def lookup_assign)

subsection \<open>The loop body of \<open>removeTrivialTitles\<close>\<close>

lemma truthy_removeTrivialTitles:
  "removeTrivialTitles v = Inr v' \<Longrightarrow> truthy v' = truthy v"
  by (cases v) (auto split: sum.splits)

lemma rtt_property_unfold:
  "rtt_property p = Inr p' \<longleftrightarrow>
   (p \<noteq> JUndefined \<and> p \<noteq> JNull \<and>
    (\<exists>p1. (if truthy (lookup (named p) ''$ref'') then p1 = p else delete_prop p ''title'' = Inr p1) \<and>
      (if truthy (lookup (named p1) ''properties'')
       then \<exists>q'. removeTrivialTitles (lookup (named p1) ''properties'') = Inr q' \<and>
                 p' = put_named p1 ''properties'' q'
       else p' = p1)))"
  by (cases p) (auto simp: rtt_property.simps split: sum.splits)

lemma rtt_property_primitive [simp]: "rtt_property (JStr s) = Inr (JStr s)"
  by (simp add: rtt_property.simps)

lemma rtt_idem:
  "(removeTrivialTitles v = Inr v' \<longrightarrow> removeTrivialTitles v' = Inr v')"
  "(rtt_entries ps = Inr ps' \<longrightarrow> rtt_entries ps' = Inr ps')"
  "(rtt_elements xs = Inr xs' \<longrightarrow> rtt_elements xs' = Inr xs')"
  "(rtt_property p = Inr p' \<longrightarrow> rtt_property p' = Inr p')"
proof (induction v and ps and xs and p arbitrary: v' and ps' and xs' and p'
       rule: removeTrivialTitles_rtt_entries_rtt_elements_rtt_property.induct)
  case (6 xs ps)
  then show ?case by (auto split: sum.splits) 
next
  case (7 ps)
  then show ?case by (auto split: sum.splits) 
next
  case (9 key property rest)
  then show ?case by (auto split: sum.splits) 
next
  case (11 property rest)
  then show ?case by (auto split: sum.splits) 
next
  case (12 property)
  show ?case
  proof
    assume a: "rtt_property property = Inr p'"
    then obtain p1 where nn: "property \<noteq> JUndefined" "property \<noteq> JNull"
      and p1: "if truthy (lookup (named property) ''$ref'') then p1 = property
               else delete_prop property ''title'' = Inr p1"
      and r: "if truthy (lookup (named p1) ''properties'')
       then \<exists>q'. removeTrivialTitles (lookup (named p1) ''properties'') = Inr q' \<and>
                 p' = put_named p1 ''properties'' q'
       else p' = p1"
      unfolding rtt_property_unfold by blast
    let ?ref = "lookup (named property) ''$ref''"
    have p1_def: "p1 \<noteq> JUndefined \<and> p1 \<noteq> JNull"
      using p1 nn delete_prop_defined by (auto split: if_splits)
    have ref1: "lookup (named p1) ''$ref'' = ?ref"
      using p1 by (auto simp: lookup_delete_prop split: if_splits)
    have del1: "\<not> truthy ?ref \<Longrightarrow> delete_prop p1 ''title'' = Inr p1"
      using p1 by (auto intro: delete_prop_twice)
    show "rtt_property p' = Inr p'"
    proof (cases "truthy (lookup (named p1) ''properties'')")
      case False
      with r have "p' = p1" by simp
      with False p1_def ref1 del1 show ?thesis
        unfolding rtt_property_unfold by auto
    next
      case True
      let ?q = "lookup (named p1) ''properties''"
      from True r obtain q' where q': "removeTrivialTitles ?q = Inr q'"
        and p': "p' = put_named p1 ''properties'' q'" by auto
      have g1: "get_prop property ''$ref'' = Inr ?ref"
        using nn by (cases property) auto
      have g2: "(if \<not> truthy ?ref then delete_prop property ''title'' else Inr property) = Inr p1"
        using p1 by auto
      have g3: "get_prop p1 ''properties'' = Inr ?q"
        using p1_def by (cases p1) auto
      from "12.IH" [OF g1 g2 g3 True] q' have idem: "removeTrivialTitles q' = Inr q'"
        by blast
      have tq: "truthy q'" using truthy_removeTrivialTitles [OF q'] True by simp
      have key: "''properties'' \<in> fst ` set (named p1)"
        using True by (rule truthy_in_keys)
      have look: "lookup (named p') ''properties'' = q'"
        using key by (simp add: p' lookup_replace_first)
      have ref': "lookup (named p') ''$ref'' = ?ref"
        using ref1 by (simp add: p' lookup_replace_first)
      have del': "\<not> truthy ?ref \<Longrightarrow> delete_prop p' ''title'' = Inr p'"
        using p1 unfolding p' by (auto intro: delete_prop_replace)
      show ?thesis
        unfolding rtt_property_unfold
        using p1_def ref' del' look tq idem by (auto simp: p')
    qed
  qed
qed auto

lemma rtt_property_title_kept:
  assumes "rtt_property p = Inr p'" and "truthy (prop_of p ''$ref'')"
  shows "prop_of p' ''title'' = prop_of p ''title''"
  using assms unfolding rtt_property_unfold prop_of_def
  by (auto simp: lookup_replace_first split: if_splits)

lemma rtt_property_ref_same:
  assumes "rtt_property p = Inr p'"
  shows "prop_of p' ''$ref'' = prop_of p ''$ref''"
  using assms unfolding rtt_property_unfold prop_of_def
  by (auto simp: lookup_replace_first lookup_delete_prop split: if_splits)

lemma rtt_property_title_deleted:
  assumes "rtt_property p = Inr p'" and "\<not> truthy (prop_of p' ''$ref'')"
  shows "''title'' \<notin> fst ` set (named p')"
proof -
  have falsy: "\<not> truthy (lookup (named p) ''$ref'')"
    using assms rtt_property_ref_same by (simp add: prop_of_def)
  with assms(1) obtain p1 where p1: "delete_prop p ''title'' = Inr p1"
    and r: "p' = p1 \<or> (\<exists>q'. p' = put_named p1 ''properties'' q')"
    unfolding rtt_property_unfold by (auto split: if_splits)
  have "fst ` set (named p') = fst ` set (named p1)"
  proof -
    from r show ?thesis
    proof
      assume "p' = p1"
      then show ?thesis by simp
    next
      assume "\<exists>q'. p' = put_named p1 ''properties'' q'"
      then obtain q' where "p' = put_named p1 ''properties'' q'" ..
      then show ?thesis by (simp only: named_put_named keys_replace_first)
    qed
  qed
  also have "\<dots> = fst ` set (named p) - {''title''}"
    by (simp add: named_delete_prop [OF p1])
  finally show ?thesis by simp
qed

lemma rtt_property_frame:
  assumes "rtt_property p = Inr p'" and "k \<noteq> ''title''" and "k \<noteq> ''properties''"
  shows "prop_of p' k = prop_of p k"
  using assms unfolding rtt_property_unfold prop_of_def
  by (auto simp: lookup_replace_first lookup_delete_prop split: if_splits)

lemma properties_after_rtt_property:
  assumes "rtt_property p = Inr p'"
  shows "(\<not> truthy (lookup (named p) ''properties'') \<and> \<not> truthy (lookup (named p') ''properties''))
       \<or> removeTrivialTitles (lookup (named p) ''properties'') = Inr (lookup (named p') ''properties'')"
proof -
  from assms obtain p1 where
      p1: "if truthy (lookup (named p) ''$ref'') then p1 = p else delete_prop p ''title'' = Inr p1"
      and r: "if truthy (lookup (named p1) ''properties'')
       then \<exists>q'. removeTrivialTitles (lookup (named p1) ''properties'') = Inr q' \<and>
                 p' = put_named p1 ''properties'' q'
       else p' = p1"
    unfolding rtt_property_unfold by blast
  have same: "lookup (named p1) ''properties'' = lookup (named p) ''properties''"
    using p1 by (auto simp: lookup_delete_prop split: if_splits)
  show ?thesis
  proof (cases "truthy (lookup (named p) ''properties'')")
    case False
    with r same show ?thesis by simp
  next
    case True
    with r same obtain q' where "removeTrivialTitles (lookup (named p) ''properties'') = Inr q'"
      and "p' = put_named p1 ''properties'' q'" by auto
    moreover have "''properties'' \<in> fst ` set (named p1)"
      using True same truthy_in_keys by simp
    ultimately show ?thesis by (simp add: lookup_replace_first)
  qed
qed

subsection \<open>Idempotence\<close>

lemma strip_under_unfold:
  "strip_under s k = Inr s' \<longleftrightarrow>
   (s \<noteq> JUndefined \<and> s \<noteq> JNull \<and>
    (if truthy (lookup (named s) k)
     then \<exists>q'. removeTrivialTitles (lookup (named s) k) = Inr q' \<and> s' = put_named s k q'
     else s' = s))"
  by (cases s) (auto simp: strip_under_def split: sum.splits)

lemma strip_under_twice:
  assumes "strip_under s k = Inr s'"
  shows "strip_under s' k = Inr s'"
proof (cases "truthy (lookup (named s) k)")
  case False
  with assms show ?thesis unfolding strip_under_unfold by auto
next
  case True
  with assms obtain q' where q: "removeTrivialTitles (lookup (named s) k) = Inr q'"
    and s': "s' = put_named s k q'" and nn: "s \<noteq> JUndefined" "s \<noteq> JNull"
    unfolding strip_under_unfold by auto
  have "lookup (named s') k = q'"
    using truthy_in_keys [OF True] by (simp add: s' lookup_replace_first)
  moreover have "truthy q'" using truthy_removeTrivialTitles [OF q] True by simp
  moreover have "removeTrivialTitles q' = Inr q'" using rtt_idem(1) q by blast
  ultimately show ?thesis
    unfolding strip_under_unfold using nn by (auto simp: s')
qed

lemma strip_under_keeps_fixpoint:
  assumes fixp: "strip_under s k = Inr s" and step: "strip_under s k' = Inr t" and ne: "k \<noteq> k'"
  shows "strip_under t k = Inr t"
proof (cases "truthy (lookup (named s) k')")
  case False
  with step have "t = s" unfolding strip_under_unfold by auto
  with fixp show ?thesis by simp
next
  case True
  with step obtain d' where t: "t = put_named s k' d'" and nn: "s \<noteq> JUndefined" "s \<noteq> JNull"
    unfolding strip_under_unfold by auto
  have same: "lookup (named t) k = lookup (named s) k"
    using ne by (auto simp: t lookup_replace_first)
  show ?thesis
  proof (cases "truthy (lookup (named s) k)")
    case False
    with same nn show ?thesis unfolding strip_under_unfold by (auto simp: t)
  next
    case True
    with fixp obtain q' where q: "removeTrivialTitles (lookup (named s) k) = Inr q'"
      and s: "s = put_named s k q'"
      unfolding strip_under_unfold by auto
    have "put_named t k q' = t"
      unfolding t using put_named_commute [OF ne, of s d' q'] s by simp
    with True same q nn show ?thesis
      unfolding strip_under_unfold by (auto simp: t)
  qed
qed

lemma strip_under_keeps_set_prop:
  assumes fixp: "set_prop s k x = Inr s" and step: "strip_under s k' = Inr t" and ne: "k \<noteq> k'"
  shows "set_prop t k x = Inr t"
proof (cases "truthy (lookup (named s) k')")
  case False
  with step have "t = s" unfolding strip_under_unfold by auto
  with fixp show ?thesis by simp
next
  case True
  with step obtain d' where t: "t = put_named s k' d'"
    unfolding strip_under_unfold by auto
  show ?thesis unfolding t using fixp ne by (rule set_prop_put_named)
qed

lemma preProcessSchema_twice:
  assumes "preProcessSchema cfg s = Inr s'"
  shows "preProcessSchema cfg s' = Inr s'"
proof -
  define F1 where "F1 = (\<lambda>v. if noAdditionalProperties cfg
            then set_prop v ''additionalProperties'' (JBool False) else Inr v)"
  from assms obtain s1 where s1: "F1 s = Inr s1"
    and rest: "if noTrivialTypes cfg
          then (case strip_under s1 ''properties'' of Inl e \<Rightarrow> Inl e
                | Inr s2 \<Rightarrow> strip_under s2 ''definitions'') = Inr s'
          else s' = s1"
    unfolding preProcessSchema_def F1_def by (auto split: sum.splits if_splits)
  have f1: "F1 s1 = Inr s1"
    using s1 unfolding F1_def by (auto split: if_splits intro: set_prop_twice)
  have F1_keep: "F1 t = Inr t" if "F1 v = Inr v" "strip_under v k' = Inr t"
      "k' \<noteq> ''additionalProperties''" for v t k'
    using that unfolding F1_def
    by (auto split: if_splits intro: strip_under_keeps_set_prop)
  show ?thesis
  proof (cases "noTrivialTypes cfg")
    case False
    with rest f1 show ?thesis
      unfolding preProcessSchema_def F1_def by (auto split: if_splits)
  next
    case True
    with rest obtain s2 where s2: "strip_under s1 ''properties'' = Inr s2"
      and s3: "strip_under s2 ''definitions'' = Inr s'"
      by (auto split: sum.splits)
    have a: "F1 s2 = Inr s2" using f1 s2 by (rule F1_keep) simp
    have b: "strip_under s2 ''properties'' = Inr s2" using s2 by (rule strip_under_twice)
    have a': "F1 s' = Inr s'" using a s3 by (rule F1_keep) simp
    have b': "strip_under s' ''properties'' = Inr s'"
      using b s3 by (rule strip_under_keeps_fixpoint) simp
    have c': "strip_under s' ''definitions'' = Inr s'" using s3 by (rule strip_under_twice)
    show ?thesis
      using a' b' c' True unfolding preProcessSchema_def F1_def by (auto split: if_splits)
  qed
qed

subsection \<open>Idempotence\<close>

text \<open>C5: the normalizer is idempotent. For every schema list and every configuration
  (any combination of the two flags), if \<open>preProcessSchemas\<close> returns, then running it
  again with the same configuration on the schemas it left returns too and changes
  nothing: the schemas after two runs are the schemas after one.\<close>

theorem preProcessSchemas_idempotent:
  "preProcessSchemas schemas cfg = Inr schemas' \<Longrightarrow>
   preProcessSchemas schemas' cfg = Inr schemas'"
proof (induction schemas arbitrary: schemas')
  case Nil
  then show ?case by simp
next
  case (Cons s rest)
  then show ?case
    by (auto split: sum.splits dest: preProcessSchema_twice)
qed

subsection \<open>Properties along a path\<close>

lemma rtt_entries_visited: "rtt_entries ps = Inr ps' \<Longrightarrow> list_all2 visited ps ps'"
  by (induction ps arbitrary: ps') (auto simp: visited_def split: sum.splits)

lemma rtt_elements_visited:
  "rtt_elements xs = Inr xs' \<Longrightarrow> list_all2 (\<lambda>v v'. rtt_property v = Inr v') xs xs'"
  by (induction xs arbitrary: xs') (auto split: sum.splits)

lemma zip_visited:
  "list_all2 (\<lambda>v v'. rtt_property v = Inr v') xs xs' \<Longrightarrow> length ks = length xs \<Longrightarrow>
   list_all2 visited (zip ks xs) (zip ks xs')"
  by (induction xs xs' arbitrary: ks rule: list_all2_induct)
     (auto simp: visited_def length_Suc_conv)

lemma entries_visited:
  "removeTrivialTitles object = Inr object' \<Longrightarrow>
   list_all2 visited (entries object) (entries object')"
proof (cases object)
  case (JArr xs ps)
  assume "removeTrivialTitles object = Inr object'"
  with JArr obtain xs' ps' where x: "rtt_elements xs = Inr xs'" and p: "rtt_entries ps = Inr ps'"
    and o: "object' = JArr xs' ps'" by (auto split: sum.splits)
  have l: "length xs' = length xs"
    using rtt_elements_visited [OF x] by (simp add: list_all2_lengthD)
  show ?thesis
    using zip_visited [OF rtt_elements_visited [OF x], of "index_keys (length xs)"]
      rtt_entries_visited [OF p]
    by (simp add: JArr o l index_keys_def list_all2_appendI)
next
  case (JStr s)
  assume "removeTrivialTitles object = Inr object'"
  with JStr show ?thesis
    by (auto simp: list_all2_conv_all_nth visited_def index_keys_def)
qed (auto split: sum.splits dest: rtt_entries_visited)

lemma lookup_visited:
  "list_all2 visited es es' \<Longrightarrow>
   (k \<notin> fst ` set es \<and> lookup es' k = JUndefined \<and> lookup es k = JUndefined) \<or>
   (k \<in> fst ` set es \<and> rtt_property (lookup es k) = Inr (lookup es' k))"
proof (induction es es' rule: list_all2_induct)
  case Nil
  then show ?case by simp
next
  case (Cons e es e' es')
  then show ?case by (cases e; cases e') (auto simp: visited_def)
qed

lemma get_own_visited:
  assumes "removeTrivialTitles object = Inr object'"
  shows "(get_own object' k = JUndefined \<and> get_own object k = JUndefined) \<or>
         rtt_property (get_own object k) = Inr (get_own object' k)"
  using lookup_visited [OF entries_visited [OF assms], of k]
  by (auto simp: get_own_def)

lemma falsy_no_entries: "\<not> truthy v \<Longrightarrow> entries v = []"
  by (cases v) (auto simp: index_keys_def)

lemma property_at_falsy: "\<not> truthy v \<Longrightarrow> property_at v ks = JUndefined"
proof (induction v ks rule: property_at.induct)
  case (3 object k k' ks)
  have "get_own object k = JUndefined"
    using "3.prems" by (simp add: get_own_def falsy_no_entries)
  then show ?case using 3 by simp
qed (simp_all add: get_own_def falsy_no_entries)

lemma property_at_visited:
  "removeTrivialTitles object = Inr object' \<Longrightarrow> ks \<noteq> [] \<Longrightarrow>
   (property_at object' ks = JUndefined \<and> property_at object ks = JUndefined) \<or>
   rtt_property (property_at object ks) = Inr (property_at object' ks)"
proof (induction object ks arbitrary: object' rule: property_at.induct)
  case (1 object)
  then show ?case by simp
next
  case (2 object k)
  then show ?case using get_own_visited [of object object' k] by simp
next
  case (3 object k k' ks)
  let ?p = "get_own object k" and ?p' = "get_own object' k"
  from get_own_visited [OF "3.prems"(1), of k]
  show ?case
  proof
    assume "?p' = JUndefined \<and> ?p = JUndefined"
    then show ?thesis by (simp add: property_at_falsy)
  next
    assume v: "rtt_property ?p = Inr ?p'"
    from properties_after_rtt_property [OF v] show ?thesis
    proof
      assume "\<not> truthy (lookup (named ?p) ''properties'') \<and>
              \<not> truthy (lookup (named ?p') ''properties'')"
      then show ?thesis by (simp add: property_at_falsy prop_of_def)
    next
      assume "removeTrivialTitles (lookup (named ?p) ''properties'')
              = Inr (lookup (named ?p') ''properties'')"
      then have "removeTrivialTitles (prop_of ?p ''properties'') = Inr (prop_of ?p' ''properties'')"
        by (simp add: prop_of_def)
      from "3.IH" [OF this] show ?thesis by simp
    qed
  qed
qed

lemma strip_under_at:
  assumes "strip_under s k = Inr s'"
  shows "(\<not> truthy (prop_of s k) \<and> s' = s) \<or>
         (truthy (prop_of s k) \<and> removeTrivialTitles (prop_of s k) = Inr (prop_of s' k))"
proof (cases "truthy (prop_of s k)")
  case False
  with assms show ?thesis unfolding strip_under_unfold prop_of_def by auto
next
  case True
  with assms obtain q' where "removeTrivialTitles (prop_of s k) = Inr q'"
    and "s' = put_named s k q'"
    unfolding strip_under_unfold prop_of_def by auto
  moreover have "k \<in> fst ` set (named s)" using True truthy_in_keys by (simp add: prop_of_def)
  ultimately show ?thesis using True by (simp add: prop_of_def lookup_replace_first)
qed

lemma strip_under_frame:
  assumes "strip_under s k = Inr s'" and "k' \<noteq> k"
  shows "prop_of s' k' = prop_of s k'"
  using assms unfolding strip_under_unfold prop_of_def
  by (auto simp: lookup_replace_first split: if_splits)

lemma preProcessSchema_steps:
  assumes "preProcessSchema cfg s = Inr s'" and "noTrivialTypes cfg"
  obtains s1 s2 where
    "if noAdditionalProperties cfg
     then set_prop s ''additionalProperties'' (JBool False) = Inr s1 else s1 = s"
    "strip_under s1 ''properties'' = Inr s2"
    "strip_under s2 ''definitions'' = Inr s'"
  using assms unfolding preProcessSchema_def
  by (auto split: sum.splits if_splits)

lemma preProcessSchema_at:
  assumes pre: "preProcessSchema cfg s = Inr s'" and on: "noTrivialTypes cfg"
    and start: "start = ''properties'' \<or> start = ''definitions''"
  shows "(\<not> truthy (prop_of s start) \<and> prop_of s' start = prop_of s start) \<or>
         removeTrivialTitles (prop_of s start) = Inr (prop_of s' start)"
proof -
  from pre on obtain s1 s2 where
    s1: "if noAdditionalProperties cfg
     then set_prop s ''additionalProperties'' (JBool False) = Inr s1 else s1 = s"
    and s2: "strip_under s1 ''properties'' = Inr s2"
    and s3: "strip_under s2 ''definitions'' = Inr s'"
    by (rule preProcessSchema_steps)
  have f1: "prop_of s1 start = prop_of s start"
    using s1 start by (auto split: if_splits intro: set_prop_frame)
  from start show ?thesis
  proof
    assume r: "start = ''properties''"
    have "prop_of s' start = prop_of s2 start" using s3 r by (auto intro: strip_under_frame)
    with strip_under_at [OF s2] f1 r show ?thesis by auto
  next
    assume r: "start = ''definitions''"
    have "prop_of s2 start = prop_of s1 start" using s2 r by (auto intro: strip_under_frame)
    with strip_under_at [OF s3] f1 r show ?thesis by auto
  qed
qed

lemma preProcessSchema_off:
  assumes "preProcessSchema cfg s = Inr s'" and "\<not> noTrivialTypes cfg"
    and "start \<noteq> ''additionalProperties''"
  shows "prop_of s' start = prop_of s start"
  using assms unfolding preProcessSchema_def
  by (auto split: sum.splits if_splits intro: set_prop_frame)

lemma preProcessSchema_frame:
  assumes "preProcessSchema cfg s = Inr s'"
    and "k \<noteq> ''additionalProperties''" "k \<noteq> ''properties''" "k \<noteq> ''definitions''"
  shows "prop_of s' k = prop_of s k"
proof (cases "noTrivialTypes cfg")
  case False
  with assms show ?thesis by (auto intro: preProcessSchema_off)
next
  case True
  with assms(1) obtain s1 s2 where
    s1: "if noAdditionalProperties cfg
     then set_prop s ''additionalProperties'' (JBool False) = Inr s1 else s1 = s"
    and s2: "strip_under s1 ''properties'' = Inr s2"
    and s3: "strip_under s2 ''definitions'' = Inr s'"
    by (rule preProcessSchema_steps)
  have "prop_of s1 k = prop_of s k"
    using s1 assms(2) by (auto split: if_splits intro: set_prop_frame)
  moreover have "prop_of s2 k = prop_of s1 k" using s2 assms(3) by (rule strip_under_frame)
  moreover have "prop_of s' k = prop_of s2 k" using s3 assms(4) by (rule strip_under_frame)
  ultimately show ?thesis by simp
qed

lemma preProcessSchemas_nth:
  "preProcessSchemas schemas cfg = Inr schemas' \<Longrightarrow>
   list_all2 (\<lambda>s s'. preProcessSchema cfg s = Inr s') schemas schemas'"
  by (induction schemas arbitrary: schemas') (auto split: sum.splits)

lemma normalizer_node:
  assumes pre: "preProcessSchema cfg s = Inr s'"
    and start: "start = ''properties'' \<or> start = ''definitions''"
  shows "property_at (prop_of s' start) path = property_at (prop_of s start) path \<or>
         rtt_property (property_at (prop_of s start) path) = Inr (property_at (prop_of s' start) path)"
proof (cases "noTrivialTypes cfg")
  case False
  have "prop_of s' start = prop_of s start"
    using pre False start by (auto intro: preProcessSchema_off)
  then show ?thesis by simp
next
  case True
  from preProcessSchema_at [OF pre True start] show ?thesis
  proof
    assume "\<not> truthy (prop_of s start) \<and> prop_of s' start = prop_of s start"
    then show ?thesis by simp
  next
    assume r: "removeTrivialTitles (prop_of s start) = Inr (prop_of s' start)"
    show ?thesis
    proof (cases "path = []")
      case True
      then show ?thesis by simp
    next
      case False
      from property_at_visited [OF r False] show ?thesis by auto
    qed
  qed
qed

subsection \<open>Titles and \<open>$ref\<close>\<close>

subsection \<open>Titles and \<open>$ref\<close>\<close>

text \<open>C6, as amended: the normalizer never deletes the title of a property whose \<open>$ref\<close>
  is truthy (present and not the empty string, \<open>0\<close>, \<open>false\<close> or \<open>null\<close>), at any depth of
  nested \<open>properties\<close> maps below the schema's \<open>properties\<close> or \<open>definitions\<close>: for every
  schema list and configuration on which \<open>preProcessSchemas\<close> returns, the property found
  at a path in schema \<open>i\<close> before the run has the same \<open>title\<close> after it.\<close>

theorem normalizer_keeps_title_of_truthy_ref:
  assumes "preProcessSchemas schemas cfg = Inr schemas'"
    and "i < length schemas"
    and "start = ''properties'' \<or> start = ''definitions''"
    and "truthy (prop_of (property_at (prop_of (schemas ! i) start) path) ''$ref'')"
  shows "prop_of (property_at (prop_of (schemas' ! i) start) path) ''title'' =
         prop_of (property_at (prop_of (schemas ! i) start) path) ''title''"
proof -
  have "preProcessSchema cfg (schemas ! i) = Inr (schemas' ! i)"
    using preProcessSchemas_nth [OF assms(1)] assms(2) by (simp add: list_all2_conv_all_nth)
  from normalizer_node [OF this assms(3), of path] assms(4) show ?thesis
    by (auto intro: rtt_property_title_kept)
qed

subsection \<open>Where the title deletion goes\<close>

subsection \<open>Where the title deletion goes\<close>

text \<open>C7, as amended: with \<open>noTrivialTypes\<close> on, the title deletion goes through nested
  \<open>properties\<close> maps only, to any depth, starting from the entries of the schema's
  \<open>properties\<close> and of its top-level \<open>definitions\<close>. After the run, a property at any path
  of \<open>properties\<close> maps below either of the two has no \<open>title\<close> unless its \<open>$ref\<close> is
  truthy, however deep it lies inside a definition entry; what a property holds under a
  key other than \<open>title\<close> and \<open>properties\<close> is as it was (so titles below \<open>items\<close>, or
  below a \<open>definitions\<close> map nested in a property, stay); and what a schema holds under
  a key other than \<open>additionalProperties\<close>, \<open>properties\<close> and \<open>definitions\<close> is as it
  was.\<close>

theorem normalizer_descends_through_properties_only:
  assumes "preProcessSchemas schemas cfg = Inr schemas'"
    and "i < length schemas"
    and "noTrivialTypes cfg"
    and "start = ''properties'' \<or> start = ''definitions''"
  shows "(path \<noteq> [] \<longrightarrow> \<not> truthy (prop_of (property_at (prop_of (schemas' ! i) start) path) ''$ref'') \<longrightarrow>
            ''title'' \<notin> fst ` set (named (property_at (prop_of (schemas' ! i) start) path)))
       \<and> (k \<noteq> ''title'' \<longrightarrow> k \<noteq> ''properties'' \<longrightarrow>
            prop_of (property_at (prop_of (schemas' ! i) start) path) k =
            prop_of (property_at (prop_of (schemas ! i) start) path) k)
       \<and> (k \<noteq> ''additionalProperties'' \<longrightarrow> k \<noteq> ''properties'' \<longrightarrow> k \<noteq> ''definitions'' \<longrightarrow>
            prop_of (schemas' ! i) k = prop_of (schemas ! i) k)"
proof -
  let ?p = "property_at (prop_of (schemas ! i) start) path"
  let ?p' = "property_at (prop_of (schemas' ! i) start) path"
  have pre: "preProcessSchema cfg (schemas ! i) = Inr (schemas' ! i)"
    using preProcessSchemas_nth [OF assms(1)] assms(2) by (simp add: list_all2_conv_all_nth)
  have node: "(?p' = JUndefined \<and> ?p = JUndefined) \<or> rtt_property ?p = Inr ?p'"
    if "path \<noteq> []"
    using preProcessSchema_at [OF pre assms(3) assms(4)] property_at_visited [OF _ that]
    by (auto simp: property_at_falsy)
  have a: "''title'' \<notin> fst ` set (named ?p')"
    if "path \<noteq> []" "\<not> truthy (prop_of ?p' ''$ref'')"
  proof -
    from node [OF that(1)] show ?thesis
    proof
      assume "?p' = JUndefined \<and> ?p = JUndefined"
      then show ?thesis by simp
    next
      assume "rtt_property ?p = Inr ?p'"
      then show ?thesis using that(2) by (rule rtt_property_title_deleted)
    qed
  qed
  have b: "prop_of ?p' k = prop_of ?p k" if "k \<noteq> ''title''" "k \<noteq> ''properties''"
    using normalizer_node [OF pre assms(4), of path] that
    by (auto intro: rtt_property_frame)
  have c: "prop_of (schemas' ! i) k = prop_of (schemas ! i) k"
    if "k \<noteq> ''additionalProperties''" "k \<noteq> ''properties''" "k \<noteq> ''definitions''"
    using pre that by (rule preProcessSchema_frame)
  from a b c show ?thesis by blast
qed

subsection \<open>Both flags off\<close>

subsection \<open>Both flags off\<close>

text \<open>C10: with both flags off the loop body executes no statement, so every schema list
  comes back as it went in, and the run does not fail.\<close>

theorem preProcessSchemas_flags_off_identity:
  "preProcessSchemas schemas \<lparr>noAdditionalProperties = False, noTrivialTypes = False\<rparr>
     = Inr schemas"
  by (induction schemas) (simp_all add: preProcessSchema_def)

subsection \<open>Concrete runs of the normalizer\<close>

lemmas normalizer_eval =
  preProcessSchema_def strip_under_def rtt_property.simps prop_of_def get_own_def

text \<open>Idempotence on a schema with a trivial title, a reference and a definition.\<close>

theorem preProcessSchemas_idempotent_witness:
  "preProcessSchemas
     [JObj [(''title'', JStr ''Book''),
            (''properties'', JObj
               [(''name'', JObj [(''title'', JStr ''Name''), (''type'', JStr ''string'')]),
                (''author'', JObj [(''$ref'', JStr ''#/definitions/author''),
                                   (''title'', JStr ''Author'')])]),
            (''definitions'', JObj
               [(''author'', JObj [(''title'', JStr ''Author''), (''type'', JStr ''object'')])])]]
     \<lparr>noAdditionalProperties = True, noTrivialTypes = True\<rparr>
   = Inr [JObj [(''title'', JStr ''Book''),
            (''properties'', JObj
               [(''name'', JObj [(''type'', JStr ''string'')]),
                (''author'', JObj [(''$ref'', JStr ''#/definitions/author''),
                                   (''title'', JStr ''Author'')])]),
            (''definitions'', JObj [(''author'', JObj [(''type'', JStr ''object'')])]),
            (''additionalProperties'', JBool False)]]
   \<and> preProcessSchemas
     [JObj [(''title'', JStr ''Book''),
            (''properties'', JObj
               [(''name'', JObj [(''type'', JStr ''string'')]),
                (''author'', JObj [(''$ref'', JStr ''#/definitions/author''),
                                   (''title'', JStr ''Author'')])]),
            (''definitions'', JObj [(''author'', JObj [(''type'', JStr ''object'')])]),
            (''additionalProperties'', JBool False)]]
     \<lparr>noAdditionalProperties = True, noTrivialTypes = True\<rparr>
   = Inr [JObj [(''title'', JStr ''Book''),
            (''properties'', JObj
               [(''name'', JObj [(''type'', JStr ''string'')]),
                (''author'', JObj [(''$ref'', JStr ''#/definitions/author''),
                                   (''title'', JStr ''Author'')])]),
            (''definitions'', JObj [(''author'', JObj [(''type'', JStr ''object'')])]),
            (''additionalProperties'', JBool False)]]"
  (is "?run = Inr ?after \<and> _")
proof -
  have first: "?run = Inr ?after"
    by (simp add: normalizer_eval)
  from preProcessSchemas_idempotent [OF first] first show ?thesis
    by simp
qed

text \<open>C6 as stated fails: the property \<open>author\<close> has a \<open>$ref\<close> field, the empty string (a
  reference to the document itself), and the run with \<open>noTrivialTypes\<close> deletes its title.
  The test in the source is \<open>!property['$ref']\<close>, which is true of every falsy value.\<close>

theorem normalizer_deletes_title_beside_empty_ref:
  "preProcessSchemas
     [JObj [(''title'', JStr ''Book''),
            (''properties'', JObj
               [(''author'', JObj [(''$ref'', JStr ''''), (''title'', JStr ''Author'')])])]]
     \<lparr>noAdditionalProperties = False, noTrivialTypes = True\<rparr>
   = Inr [JObj [(''title'', JStr ''Book''),
            (''properties'', JObj [(''author'', JObj [(''$ref'', JStr '''')])])]]"
  by (simp add: normalizer_eval)

theorem normalizer_keeps_title_of_truthy_ref_witness:
  "prop_of
     (property_at
        (prop_of
           (JObj [(''title'', JStr ''Book''),
                  (''properties'', JObj
                     [(''publisher'', JObj
                        [(''type'', JStr ''object''),
                         (''properties'', JObj
                            [(''owner'', JObj [(''$ref'', JStr ''#/definitions/person''),
                                               (''title'', JStr ''Person'')])])])])])
           ''properties'')
        [''publisher'', ''owner''])
     ''title''
   = JStr ''Person''"
proof -
  let ?before = "JObj [(''title'', JStr ''Book''),
                  (''properties'', JObj
                     [(''publisher'', JObj
                        [(''title'', JStr ''Publisher''), (''type'', JStr ''object''),
                         (''properties'', JObj
                            [(''owner'', JObj [(''$ref'', JStr ''#/definitions/person''),
                                               (''title'', JStr ''Person'')])])])])]"
  let ?after = "JObj [(''title'', JStr ''Book''),
                  (''properties'', JObj
                     [(''publisher'', JObj
                        [(''type'', JStr ''object''),
                         (''properties'', JObj
                            [(''owner'', JObj [(''$ref'', JStr ''#/definitions/person''),
                                               (''title'', JStr ''Person'')])])])])]"
  let ?cfg = "\<lparr>noAdditionalProperties = False, noTrivialTypes = True\<rparr>"
  have run: "preProcessSchemas [?before] ?cfg = Inr [?after]"
    by (simp add: normalizer_eval)
  have len: "0 < length [?before]" by simp
  have start: "''properties'' = ''properties'' \<or> ''properties'' = ''definitions''" by simp
  have ref: "truthy (prop_of (property_at (prop_of ([?before] ! 0) ''properties'')
                       [''publisher'', ''owner'']) ''$ref'')"
    by (simp add: normalizer_eval lookup_def)
  from normalizer_keeps_title_of_truthy_ref [OF run len start ref] show ?thesis
    by (simp add: normalizer_eval lookup_def)
qed

text \<open>C7 as stated fails: \<open>lat\<close> has no \<open>$ref\<close> and lies two levels of \<open>properties\<close> inside
  the definition entry \<open>address\<close>, and the run deletes its title. The title below \<open>items\<close>
  stays.\<close>

theorem normalizer_deletes_title_deep_in_definition:
  "preProcessSchemas
     [JObj [(''title'', JStr ''Shop''),
            (''definitions'', JObj
               [(''address'', JObj
                  [(''type'', JStr ''object''),
                   (''properties'', JObj
                      [(''geo'', JObj
                         [(''type'', JStr ''object''),
                          (''items'', JObj [(''title'', JStr ''Item'')]),
                          (''properties'', JObj
                             [(''lat'', JObj [(''title'', JStr ''Latitude''),
                                              (''type'', JStr ''number'')])])])])])])]]
     \<lparr>noAdditionalProperties = False, noTrivialTypes = True\<rparr>
   = Inr [JObj [(''title'', JStr ''Shop''),
            (''definitions'', JObj
               [(''address'', JObj
                  [(''type'', JStr ''object''),
                   (''properties'', JObj
                      [(''geo'', JObj
                         [(''type'', JStr ''object''),
                          (''items'', JObj [(''title'', JStr ''Item'')]),
                          (''properties'', JObj
                             [(''lat'', JObj [(''type'', JStr ''number'')])])])])])])]]"
  by (simp add: normalizer_eval)

theorem normalizer_descends_through_properties_only_witness:
  "''title'' \<notin> fst ` set (named (JObj [(''type'', JStr ''number'')]))
   \<and> prop_of (JObj [(''type'', JStr ''number'')]) ''type'' = JStr ''number''
   \<and> prop_of
        (JObj [(''title'', JStr ''Shop''), (''type'', JStr ''object''),
            (''definitions'', JObj
               [(''address'', JObj
                  [(''properties'', JObj
                      [(''geo'', JObj
                         [(''properties'', JObj
                             [(''lat'', JObj [(''type'', JStr ''number'')])])])])])])])
        ''type''
      = JStr ''object''"
proof -
  let ?before = "JObj [(''title'', JStr ''Shop''), (''type'', JStr ''object''),
            (''definitions'', JObj
               [(''address'', JObj
                  [(''properties'', JObj
                      [(''geo'', JObj
                         [(''properties'', JObj
                             [(''lat'', JObj [(''title'', JStr ''Latitude''),
                                              (''type'', JStr ''number'')])])])])])])]"
  let ?after = "JObj [(''title'', JStr ''Shop''), (''type'', JStr ''object''),
            (''definitions'', JObj
               [(''address'', JObj
                  [(''properties'', JObj
                      [(''geo'', JObj
                         [(''properties'', JObj
                             [(''lat'', JObj [(''type'', JStr ''number'')])])])])])])]"
  let ?cfg = "\<lparr>noAdditionalProperties = False, noTrivialTypes = True\<rparr>"
  have run: "preProcessSchemas [?before] ?cfg = Inr [?after]"
    by (simp add: normalizer_eval)
  have len: "0 < length [?before]" by simp
  have on: "noTrivialTypes ?cfg" by simp
  have start: "''definitions'' = ''properties'' \<or> ''definitions'' = ''definitions''" by simp
  from normalizer_descends_through_properties_only
         [OF run len on start, of "[''address'', ''geo'', ''lat'']" "''type''"]
  show ?thesis
    by (simp add: normalizer_eval lookup_def)
qed

section \<open>Properties of Entity Discovery and of the Schema Collector\<close>

lemma lookup_distinct:
  "distinct (map fst ps) \<Longrightarrow> (k, v) \<in> set ps \<Longrightarrow> lookup ps k = v"
  by (simp add: lookup_def)

lemma link_entities_total:
  "\<forall>k \<in> set ks. get_own links k \<noteq> JNull \<and> get_own links k \<noteq> JUndefined \<Longrightarrow>
   link_entities links ks =
     Inr (map (\<lambda>k. \<lparr>name = k, href = prop_of (get_own links k) ''href''\<rparr>) ks)"
proof (induction ks)
  case Nil
  then show ?case by simp
next
  case (Cons k ks)
  then have "get_own links k \<noteq> JNull" "get_own links k \<noteq> JUndefined" by simp_all
  then have "get_prop (get_own links k) ''href'' = Inr (prop_of (get_own links k) ''href'')"
    by (cases "get_own links k") (simp_all add: prop_of_def)
  with Cons show ?case by simp
qed

lemma filter_keys_of_entries:
  "filter P (map fst ps) = map fst (filter (\<lambda>(k, v). P k) ps)"
  by (induction ps) auto

text \<open>C4: for every profile document whose \<open>_links\<close> object holds \<open>n\<close> links with a relation
  name other than \<open>self\<close> (a link being an object, at least not \<open>null\<close>), \<open>collectEntities\<close>
  returns exactly \<open>n\<close> entity descriptors: one per such link, in the order in which the
  document's links are enumerated, with the name of the relation and the \<open>href\<close> of the
  link. The link \<open>self\<close> is left out, whatever it holds.\<close>

theorem collectEntities_one_per_link:
  assumes "client w (JStr ''profile'') None = (Some (JObj members), w')"
    and "map_of members ''_links'' = Some (JObj links)"
    and "distinct (map fst links)"
    and "\<forall>(k, link) \<in> set links. k \<noteq> ''self'' \<longrightarrow> link \<noteq> JNull \<and> link \<noteq> JUndefined"
    and "n = length (filter (\<lambda>(k, link). k \<noteq> ''self'') links)"
  shows "\<exists>entities. collectEntities client w = Inr (entities, w') \<and> length entities = n \<and>
           entities = map (\<lambda>(k, link). \<lparr>name = k, href = prop_of link ''href''\<rparr>)
                          (filter (\<lambda>(k, link). k \<noteq> ''self'') links)"
proof -
  let ?others = "filter (\<lambda>(k, link). k \<noteq> ''self'') links"
  let ?ks = "filter (\<lambda>k. k \<noteq> ''self'') (map fst links)"
  have ks: "?ks = map fst ?others" by (rule filter_keys_of_entries)
  have own: "get_own (JObj links) k = link" if "(k, link) \<in> set links" for k link
    using assms(3) that by (simp add: get_own_def lookup_distinct)
  have defined: "\<forall>k \<in> set ?ks. get_own (JObj links) k \<noteq> JNull \<and>
                   get_own (JObj links) k \<noteq> JUndefined"
  proof
    fix k assume "k \<in> set ?ks"
    then obtain link where "(k, link) \<in> set links" "k \<noteq> ''self''" by auto
    with assms(4) own show "get_own (JObj links) k \<noteq> JNull \<and>
                   get_own (JObj links) k \<noteq> JUndefined" by fastforce
  qed
  have "link_entities (JObj links) ?ks =
          Inr (map (\<lambda>k. \<lparr>name = k, href = prop_of (get_own (JObj links) k) ''href''\<rparr>) ?ks)"
    using defined by (rule link_entities_total)
  also have "map (\<lambda>k. \<lparr>name = k, href = prop_of (get_own (JObj links) k) ''href''\<rparr>) ?ks =
             map (\<lambda>(k, link). \<lparr>name = k, href = prop_of link ''href''\<rparr>) ?others"
    unfolding ks using own by (auto simp: comp_def)
  finally have mapped: "link_entities (JObj links) ?ks =
     Inr (map (\<lambda>(k, link). \<lparr>name = k, href = prop_of link ''href''\<rparr>) ?others)" .
  have present: "''_links'' \<in> set (map fst members)"
    using assms(2) by (metis map_of_eq_None_iff option.distinct(1) set_map)
  have "entities_of_profile (JObj members) =
     Inr (map (\<lambda>(k, link). \<lparr>name = k, href = prop_of link ''href''\<rparr>) ?others)"
    using present assms(2) mapped by (simp add: entities_of_profile_def lookup_def)
  then show ?thesis
    using assms(1) assms(5) by (simp add: collectEntities_def)
qed

text \<open>The end-to-end scenario of the specification: the profile with the links \<open>self\<close>,
  \<open>books\<close> and \<open>authors\<close>.\<close>

theorem collectEntities_one_per_link_witness:
  "collectEntities
      (\<lambda>w url accept.
          (if url = JStr ''profile''
           then Some (JObj [(''_links'', JObj
                  [(''self'', JObj [(''href'', JStr ''/api'')]),
                   (''books'', JObj [(''href'', JStr ''/api/books'')]),
                   (''authors'', JObj [(''href'', JStr ''/api/authors'')])])])
           else None, Suc w))
      (0 :: nat)
    = Inr ([\<lparr>name = ''books'', href = JStr ''/api/books''\<rparr>,
            \<lparr>name = ''authors'', href = JStr ''/api/authors''\<rparr>], 1)"
proof -
  let ?links = "[(''self'', JObj [(''href'', JStr ''/api'')]),
                 (''books'', JObj [(''href'', JStr ''/api/books'')]),
                 (''authors'', JObj [(''href'', JStr ''/api/authors'')])]"
  let ?client = "\<lambda>w url accept.
          (if url = JStr ''profile'' then Some (JObj [(''_links'', JObj ?links)]) else None,
           Suc w)"
  have a: "?client (0 :: nat) (JStr ''profile'') (None :: string option)
             = (Some (JObj [(''_links'', JObj ?links)]), 1)" by simp
  have b: "map_of [(''_links'', JObj ?links)] ''_links'' = Some (JObj ?links)" by simp
  have c: "distinct (map fst ?links)" by simp
  have d: "\<forall>(k, link) \<in> set ?links. k \<noteq> ''self'' \<longrightarrow> link \<noteq> JNull \<and> link \<noteq> JUndefined"
    by simp
  have e: "(2 :: nat) = length (filter (\<lambda>(k, link). k \<noteq> ''self'') ?links)" by simp
  from collectEntities_one_per_link [where client = ?client and w = 0, OF a b c d e]
  show ?thesis
    by (simp add: prop_of_def lookup_def)
qed

lemma collect_loop_in_order:
  "\<forall>i<length entities.
       fst (fetch_schema client (state_before client w entities i) (entities ! i)) \<noteq> None \<Longrightarrow>
   \<exists>schemas.
      collect_loop client w acc entities =
        Inr (acc @ schemas, state_before client w entities (length entities)) \<and>
      length schemas = length entities \<and>
      (\<forall>i<length entities.
          fst (fetch_schema client (state_before client w entities i) (entities ! i))
            = Some (schemas ! i))"
proof (induction entities arbitrary: w acc)
  case Nil
  then show ?case by simp
next
  case (Cons entity rest)
  from Cons.prems have "fst (fetch_schema client w entity) \<noteq> None" by fastforce
  then obtain data w1 where first: "fetch_schema client w entity = (Some data, w1)"
    by (cases "fetch_schema client w entity") auto
  have later: "\<forall>i<length rest.
       fst (fetch_schema client (state_before client w1 rest i) (rest ! i)) \<noteq> None"
  proof (intro allI impI)
    fix i assume "i < length rest"
    then have "Suc i < length (entity # rest)" by simp
    with Cons.prems have
      "fst (fetch_schema client (state_before client w (entity # rest) (Suc i))
              ((entity # rest) ! Suc i)) \<noteq> None" by blast
    then show "fst (fetch_schema client (state_before client w1 rest i) (rest ! i)) \<noteq> None"
      using first by simp
  qed
  from Cons.IH [OF later, of "acc @ [data]"] obtain schemas where
    run: "collect_loop client w1 (acc @ [data]) rest =
            Inr ((acc @ [data]) @ schemas, state_before client w1 rest (length rest))"
    and len: "length schemas = length rest"
    and each: "\<forall>i<length rest.
          fst (fetch_schema client (state_before client w1 rest i) (rest ! i))
            = Some (schemas ! i)"
    by blast
  have "\<forall>i<length (entity # rest).
          fst (fetch_schema client (state_before client w (entity # rest) i)
                 ((entity # rest) ! i)) = Some ((data # schemas) ! i)"
  proof (intro allI impI)
    fix i assume "i < length (entity # rest)"
    then show "fst (fetch_schema client (state_before client w (entity # rest) i)
                 ((entity # rest) ! i)) = Some ((data # schemas) ! i)"
      using first each by (cases i) simp_all
  qed
  with run len first show ?case
    by (intro exI [of _ "data # schemas"]) simp
qed

text \<open>C3: for every list of entity descriptors, when every schema request succeeds,
  \<open>collectSchemas\<close> returns a list of the same length as the entity list, and the schema at
  index \<open>i\<close> is the body of the response to the schema request sent to the \<open>href\<close> of the
  entity at index \<open>i\<close>, the requests being sent one after the other in the order of the
  list (the request for entity \<open>i\<close> meets the outside as the requests before it left
  it).\<close>

theorem collectSchemas_in_order:
  assumes "\<forall>i<length entities.
       fst (fetch_schema client (state_before client w entities i) (entities ! i)) \<noteq> None"
  shows "\<exists>schemas.
      collectSchemas client w entities =
        Inr (schemas, state_before client w entities (length entities)) \<and>
      length schemas = length entities \<and>
      (\<forall>i<length entities.
          fst (fetch_schema client (state_before client w entities i) (entities ! i))
            = Some (schemas ! i))"
  using collect_loop_in_order [OF assms, of "[]"] by (simp add: collectSchemas_def)

text \<open>Two entities and a server that counts the requests it has answered: the schemas
  come back in the order of the entities.\<close>

theorem collectSchemas_in_order_witness:
  "collectSchemas
      (\<lambda>w url accept.
          (if accept = Some ''application/schema+json'' \<and> url = JStr ''/api/books''
           then Some (JObj [(''title'', JStr ''Book'')])
           else if accept = Some ''application/schema+json'' \<and> url = JStr ''/api/authors''
           then Some (JObj [(''title'', JStr ''Author'')])
           else None, Suc w))
      (0 :: nat)
      [\<lparr>name = ''books'', href = JStr ''/api/books''\<rparr>,
       \<lparr>name = ''authors'', href = JStr ''/api/authors''\<rparr>]
    = Inr ([JObj [(''title'', JStr ''Book'')], JObj [(''title'', JStr ''Author'')]], 2)"
proof -
  let ?client = "\<lambda>w url accept.
          (if accept = Some ''application/schema+json'' \<and> url = JStr ''/api/books''
           then Some (JObj [(''title'', JStr ''Book'')])
           else if accept = Some ''application/schema+json'' \<and> url = JStr ''/api/authors''
           then Some (JObj [(''title'', JStr ''Author'')])
           else None, Suc w)"
  let ?entities = "[\<lparr>name = ''books'', href = JStr ''/api/books''\<rparr>,
                    \<lparr>name = ''authors'', href = JStr ''/api/authors''\<rparr>]"
  have ok: "\<forall>i<length ?entities.
       fst (fetch_schema ?client (state_before ?client (0 :: nat) ?entities i) (?entities ! i))
         \<noteq> None"
    by (simp add: All_less_Suc fetch_schema_def)
  from collectSchemas_in_order [where client = ?client and w = 0 and entities = ?entities, OF ok]
  obtain schemas where
    run: "collectSchemas ?client (0 :: nat) ?entities =
            Inr (schemas, state_before ?client 0 ?entities (length ?entities))"
    and len: "length schemas = length ?entities"
    and each: "\<forall>i<length ?entities.
          fst (fetch_schema ?client (state_before ?client 0 ?entities i) (?entities ! i))
            = Some (schemas ! i)"
    by blast
  from each have "schemas ! 0 = JObj [(''title'', JStr ''Book'')]"
    and "schemas ! 1 = JObj [(''title'', JStr ''Author'')]"
    by (simp_all add: All_less_Suc fetch_schema_def)
  with len have "schemas = [JObj [(''title'', JStr ''Book'')], JObj [(''title'', JStr ''Author'')]]"
    by (simp add: list_eq_iff_nth_eq All_less_Suc)
  with run show ?thesis
    by (simp add: fetch_schema_def numeral_2_eq_2)
qed

section \<open>Properties of the Reference Resolver\<close>

subsection \<open>Writing one property\<close>

lemma is_object_iff: "is_object v \<longleftrightarrow> (\<exists>ps. v = JObj ps) \<or> (\<exists>xs ps. v = JArr xs ps)"
  by (cases v) simp_all

lemma set_prop_object: "set_prop v k x = Inr v' \<Longrightarrow> is_object v \<and> is_object v'"
  by (cases v) (auto simp: is_object_iff)

lemma lookup_cases: "lookup ps k = JUndefined \<or> (k, lookup ps k) \<in> set ps"
  by (auto simp: lookup_def split: option.splits dest: map_of_SomeD)

lemma not_object_undefined [simp]: "\<not> is_object JUndefined"
  by (simp add: is_object_iff)

lemma get_own_object_key:
  assumes "is_object (get_own c k)"
  shows "k \<in> fst ` set (entries c)"
proof (rule ccontr)
  assume "k \<notin> fst ` set (entries c)"
  then have "get_own c k = JUndefined" by (simp add: get_own_def lookup_absent)
  with assms show False by simp
qed

lemma get_own_object_container:
  assumes "is_object (get_own c k)"
  shows "is_object c"
proof (cases c)
  case (JStr s)
  from lookup_cases [of "entries c" k] assms
  have "(k, get_own c k) \<in> set (entries c)" by (auto simp: get_own_def)
  then have "get_own c k \<in> set (map (\<lambda>c. JStr [c]) s)"
    using JStr by (auto dest: set_zip_rightD)
  with assms show ?thesis by (auto simp: is_object_iff)
qed (use assms in \<open>auto simp: is_object_iff get_own_def\<close>)

lemma zip_replace_first:
  "length ks = length xs \<Longrightarrow>
   zip ks (map snd (replace_first k x (zip ks xs))) = replace_first k x (zip ks xs)"
proof (induction ks xs rule: list_induct2)
  case Nil
  then show ?case by simp
next
  case (Cons k' ks y xs)
  then show ?case by simp
qed

lemma length_replace_first [simp]: "length (replace_first k x ps) = length ps"
  by (induction ps) auto

lemma replace_first_append:
  "replace_first k x (ps @ qs) =
     (if k \<in> fst ` set ps then replace_first k x ps @ qs else ps @ replace_first k x qs)"
  by (induction ps) (auto simp: rev_image_eqI)

lemma length_index_keys [simp]: "length (index_keys n) = n"
  by (simp add: index_keys_def)

lemma entries_put_own:
  assumes "is_object c"
  shows "entries (put_own c k x) = replace_first k x (entries c)"
proof -
  from assms consider ps where "c = JObj ps" | xs ps where "c = JArr xs ps"
    by (auto simp: is_object_iff)
  then show ?thesis
  proof cases
    case 1
    then show ?thesis by simp
  next
    case 2
    let ?ks = "index_keys (length xs)"
    have keys: "fst ` set (zip ?ks xs) = set ?ks"
      by (metis length_index_keys map_fst_zip set_map)
    show ?thesis
    proof (cases "k \<in> set ?ks")
      case True
      then show ?thesis
        using 2 keys by (simp add: replace_first_append zip_replace_first)
    next
      case False
      then show ?thesis
        using 2 keys by (simp add: replace_first_append)
    qed
  qed
qed

lemma get_own_put_own:
  assumes "is_object c"
  shows "get_own (put_own c k x) k' =
           (if k' = k \<and> k \<in> fst ` set (entries c) then x else get_own c k')"
  by (simp add: get_own_def entries_put_own [OF assms] lookup_replace_first)

lemma is_object_put_own: "is_object c \<Longrightarrow> is_object (put_own c k x)"
  by (cases c) (simp_all add: is_object_iff)

lemma keys_assign: "fst ` set (assign k x ps) = insert k (fst ` set ps)"
proof -
  have "map fst (assign k x ps) = (if k \<in> set (map fst ps) then map fst ps else map fst ps @ [k])"
    by (induction ps) (auto simp: rev_image_eqI)
  then have "set (map fst (assign k x ps)) = insert k (set (map fst ps))"
    by (auto split: if_splits)
  then show ?thesis by simp
qed

lemma named_set_prop: "set_prop v k x = Inr v' \<Longrightarrow> named v' = assign k x (named v)"
  by (cases v) auto

lemma retyped_property:
  assumes "set_prop p ''type'' (JStr ''object'') = Inr p1"
    and "delete_prop p1 ''format'' = Inr p2"
    and "set_prop p2 ''title'' t = Inr p3"
  shows "prop_of p3 ''type'' = JStr ''object''"
    and "''format'' \<notin> fst ` set (named p3)"
    and "prop_of p3 ''title'' = t"
    and "is_object p3"
proof -
  have n: "named p3 = assign ''title'' t (remove_key ''format'' (assign ''type'' (JStr ''object'') (named p)))"
    using assms by (simp add: named_set_prop named_delete_prop)
  show "prop_of p3 ''type'' = JStr ''object''"
    by (simp add: prop_of_def n lookup_assign)
  show "''format'' \<notin> fst ` set (named p3)"
    unfolding n keys_assign by simp
  show "prop_of p3 ''title'' = t"
    by (simp add: prop_of_def n lookup_assign)
  show "is_object p3" using assms(3) set_prop_object by blast
qed

lemma write_property_other [simp]:
  "a \<noteq> schema \<Longrightarrow> write_property store schema k p a = store a"
  by (simp add: write_property_def)

lemma write_property_frame:
  "k' \<noteq> ''properties'' \<Longrightarrow>
   prop_of (write_property store schema k p a) k' = prop_of (store a) k'"
  by (simp add: write_property_def prop_of_def lookup_replace_first)

lemma properties_of_write_property:
  assumes "is_object (properties_of store schema)"
  shows "properties_of (write_property store schema k p) schema =
           put_own (properties_of store schema) k p"
proof -
  have "''properties'' \<in> fst ` set (named (store schema))"
  proof (rule ccontr)
    assume "''properties'' \<notin> fst ` set (named (store schema))"
    then have "properties_of store schema = JUndefined"
      by (simp add: properties_of_def prop_of_def lookup_absent)
    with assms show False by simp
  qed
  then show ?thesis
    by (simp add: write_property_def properties_of_def prop_of_def lookup_replace_first)
qed

lemma get_prop_value: "get_prop v k = Inr x \<Longrightarrow> x = prop_of v k"
  by (cases v) (auto simp: prop_of_def)

lemma resolve_property_step:
  assumes "resolve_property eds entities schemas schema k (store, refs) = Inr (store', refs')"
  obtains p3 a where
    "is_object (get_own (properties_of store schema) k)"
    "referenced_schema eds entities schemas k = Inr a"
    "store' = write_property store schema k p3"
    "prop_of p3 ''type'' = JStr ''object''"
    "''format'' \<notin> fst ` set (named p3)"
    "prop_of p3 ''title'' = prop_of (store a) ''title''"
    "is_object p3"
    "refs' = (if a \<noteq> schema then refs @ [a] else refs)"
proof -
  let ?p = "get_own (properties_of store schema) k"
  from assms obtain p1 p2 h a t p3 where
    p1: "set_prop ?p ''type'' (JStr ''object'') = Inr p1"
    and p2: "delete_prop p1 ''format'' = Inr p2"
    and h: "referenced_href eds k = Inr h"
    and a: "schema_at schemas (index_of entities
                 (find (\<lambda>e. strict_eq (href e) (JStr h)) entities)) = Some a"
    and t: "get_prop (write_property store schema k p2 a) ''title'' = Inr t"
    and p3: "set_prop p2 ''title'' t = Inr p3"
    and s: "store' = write_property store schema k p3"
    and r: "refs' = (if a \<noteq> schema then refs @ [a] else refs)"
    unfolding resolve_property_def
    by (auto split: sum.splits option.splits)
  have "t = prop_of (store a) ''title''"
    using get_prop_value [OF t] by (simp add: write_property_frame)
  moreover have "referenced_schema eds entities schemas k = Inr a"
    using h a by (simp add: referenced_schema_def)
  moreover have "is_object ?p" using p1 set_prop_object by blast
  ultimately show ?thesis
    using that [of a p3] retyped_property [OF p1 p2 p3] s r by simp
qed

lemma resolve_property_fails:
  assumes "referenced_schema eds entities schemas k = Inl e"
  shows "\<exists>e'. resolve_property eds entities schemas schema k st = Inl e'"
  using assms unfolding resolve_property_def referenced_schema_def
  by (cases st) (auto split: sum.splits option.splits)

lemma retyped_property_fields:
  assumes "set_prop p ''type'' (JStr ''object'') = Inr p1"
    and "delete_prop p1 ''format'' = Inr p2"
    and "set_prop p2 ''title'' t = Inr p3"
    and "k' \<noteq> ''type''" "k' \<noteq> ''format''" "k' \<noteq> ''title''"
  shows "prop_of p3 k' = prop_of p k'"
proof -
  have "named p3 = assign ''title'' t (remove_key ''format''
                     (assign ''type'' (JStr ''object'') (named p)))"
    using assms(1-3) by (simp add: named_set_prop named_delete_prop)
  then show ?thesis
    using assms(4-6) by (simp add: prop_of_def lookup_assign)
qed

lemma resolve_property_fields:
  assumes "resolve_property eds entities schemas schema k (store, refs) = Inr (store', refs')"
    and "k' \<noteq> ''type''" "k' \<noteq> ''format''" "k' \<noteq> ''title''"
  shows "prop_of (get_own (properties_of store' schema) k0) k' =
         prop_of (get_own (properties_of store schema) k0) k'"
proof -
  let ?c = "properties_of store schema"
  let ?p = "get_own ?c k"
  from assms(1) obtain p1 p2 t p3 where
    p1: "set_prop ?p ''type'' (JStr ''object'') = Inr p1"
    and p2: "delete_prop p1 ''format'' = Inr p2"
    and p3: "set_prop p2 ''title'' t = Inr p3"
    and s: "store' = write_property store schema k p3"
    unfolding resolve_property_def
    by (auto split: sum.splits option.splits)
  have obj: "is_object ?p" using p1 set_prop_object by blast
  have c: "is_object ?c" using obj by (rule get_own_object_container)
  have key: "k \<in> fst ` set (entries ?c)" using obj by (rule get_own_object_key)
  have "properties_of store' schema = put_own ?c k p3"
    unfolding s using c by (rule properties_of_write_property)
  then have own: "get_own (properties_of store' schema) k0 = (if k0 = k then p3 else get_own ?c k0)"
    using key by (simp add: get_own_put_own [OF c])
  show ?thesis
  proof (cases "k0 = k")
    case True
    with own retyped_property_fields [OF p1 p2 p3 assms(2-4)] show ?thesis by simp
  next
    case False
    with own show ?thesis by simp
  qed
qed

subsection \<open>The loop over the relevant properties\<close>

lemma resolve_loop_post:
  assumes "resolve_loop eds entities schemas schema ks (store, refs) = Inr (store', refs')"
  shows "(\<forall>a. a \<noteq> schema \<longrightarrow> store' a = store a)
       \<and> (\<forall>a k'. k' \<noteq> ''properties'' \<longrightarrow> prop_of (store' a) k' = prop_of (store a) k')
       \<and> (\<forall>k. k \<notin> set ks \<longrightarrow>
             get_own (properties_of store' schema) k = get_own (properties_of store schema) k)
       \<and> map fst (entries (properties_of store' schema))
            = map fst (entries (properties_of store schema))
       \<and> (\<forall>k \<in> set ks. \<exists>a. referenced_schema eds entities schemas k = Inr a \<and>
             retyped (get_own (properties_of store' schema) k) (prop_of (store a) ''title''))
       \<and> (\<exists>targets. map (referenced_schema eds entities schemas) ks = map Inr targets \<and>
             refs' = refs @ filter (\<lambda>a. a \<noteq> schema) targets)"
  using assms
proof (induction ks arbitrary: store refs)
  case Nil
  then show ?case by simp
next
  case (Cons k ks)
  from Cons.prems obtain store1 refs1 where
    step: "resolve_property eds entities schemas schema k (store, refs) = Inr (store1, refs1)"
    and rest: "resolve_loop eds entities schemas schema ks (store1, refs1) = Inr (store', refs')"
    by (auto split: sum.splits)
  let ?c = "properties_of store schema"
  from step obtain p3 a where
    obj: "is_object (get_own ?c k)"
    and target: "referenced_schema eds entities schemas k = Inr a"
    and store1: "store1 = write_property store schema k p3"
    and p3: "retyped p3 (prop_of (store a) ''title'')"
    and refs1: "refs1 = (if a \<noteq> schema then refs @ [a] else refs)"
    unfolding retyped_def by (rule resolve_property_step) blast
  have c: "is_object ?c" using obj by (rule get_own_object_container)
  have key: "k \<in> fst ` set (entries ?c)" using obj by (rule get_own_object_key)
  have c1: "properties_of store1 schema = put_own ?c k p3"
    unfolding store1 using c by (rule properties_of_write_property)
  have own1: "get_own (properties_of store1 schema) k' = (if k' = k then p3 else get_own ?c k')"
    for k'
    using key by (simp add: c1 get_own_put_own [OF c])
  have keys1: "map fst (entries (properties_of store1 schema)) = map fst (entries ?c)"
    by (simp add: c1 entries_put_own [OF c] map_fst_replace_first)
  have frame1: "prop_of (store1 b) k' = prop_of (store b) k'" if "k' \<noteq> ''properties''" for b k'
    unfolding store1 using that by (rule write_property_frame)
  note ih = Cons.IH [OF rest]
  note ih1 = ih [THEN conjunct1]
  note ih2 = ih [THEN conjunct2, THEN conjunct1]
  note ih3 = ih [THEN conjunct2, THEN conjunct2, THEN conjunct1]
  note ih4 = ih [THEN conjunct2, THEN conjunct2, THEN conjunct2, THEN conjunct1]
  note ih5 = ih [THEN conjunct2, THEN conjunct2, THEN conjunct2, THEN conjunct2, THEN conjunct1]
  note ih6 = ih [THEN conjunct2, THEN conjunct2, THEN conjunct2, THEN conjunct2, THEN conjunct2]
  have 1: "\<forall>b. b \<noteq> schema \<longrightarrow> store' b = store b"
  proof (intro allI impI)
    fix b assume "b \<noteq> schema"
    then show "store' b = store b" using ih1 by (simp add: store1)
  qed
  have 2: "\<forall>b k'. k' \<noteq> ''properties'' \<longrightarrow> prop_of (store' b) k' = prop_of (store b) k'"
  proof (intro allI impI)
    fix b k' assume "k' \<noteq> ''properties''"
    then show "prop_of (store' b) k' = prop_of (store b) k'"
      using ih2 frame1 [of k' b] by simp
  qed
  have 3: "\<forall>k'. k' \<notin> set (k # ks) \<longrightarrow>
             get_own (properties_of store' schema) k' = get_own ?c k'"
  proof (intro allI impI)
    fix k' assume "k' \<notin> set (k # ks)"
    then have "k' \<notin> set ks" "k' \<noteq> k" by simp_all
    then show "get_own (properties_of store' schema) k' = get_own ?c k'"
      using ih3 own1 [of k'] by simp
  qed
  have 4: "map fst (entries (properties_of store' schema)) = map fst (entries ?c)"
    using ih4 keys1 by (rule trans)
  have 5: "\<forall>k' \<in> set (k # ks). \<exists>b. referenced_schema eds entities schemas k' = Inr b \<and>
             retyped (get_own (properties_of store' schema) k') (prop_of (store b) ''title'')"
  proof
    fix k' assume k': "k' \<in> set (k # ks)"
    show "\<exists>b. referenced_schema eds entities schemas k' = Inr b \<and>
             retyped (get_own (properties_of store' schema) k') (prop_of (store b) ''title'')"
    proof (cases "k' \<in> set ks")
      case True
      with ih5 obtain b where b: "referenced_schema eds entities schemas k' = Inr b"
        and r: "retyped (get_own (properties_of store' schema) k') (prop_of (store1 b) ''title'')"
        by blast
      have "prop_of (store1 b) ''title'' = prop_of (store b) ''title''"
        by (rule frame1) simp
      with b r show ?thesis by auto
    next
      case False
      with k' have eq: "k' = k" by simp
      have "get_own (properties_of store' schema) k = get_own (properties_of store1 schema) k"
        using ih3 False eq by simp
      then have "get_own (properties_of store' schema) k = p3"
        by (simp add: own1)
      with eq target p3 show ?thesis by auto
    qed
  qed
  from ih6 obtain targets where
    t: "map (referenced_schema eds entities schemas) ks = map Inr targets"
    and r: "refs' = refs1 @ filter (\<lambda>b. b \<noteq> schema) targets"
    by blast
  have 6: "\<exists>targets. map (referenced_schema eds entities schemas) (k # ks) = map Inr targets \<and>
             refs' = refs @ filter (\<lambda>b. b \<noteq> schema) targets"
  proof (intro exI conjI)
    show "map (referenced_schema eds entities schemas) (k # ks) = map Inr (a # targets)"
      using t target by simp
    show "refs' = refs @ filter (\<lambda>b. b \<noteq> schema) (a # targets)"
      using r refs1 by simp
  qed
  show ?case
    by (intro conjI) (rule 1, rule 2, rule 3, rule 4, rule 5, rule 6)
qed

lemma resolve_loop_fails:
  assumes "k \<in> set ks" and "referenced_schema eds entities schemas k = Inl e"
  shows "\<exists>e'. resolve_loop eds entities schemas schema ks st = Inl e'"
  using assms(1)
proof (induction ks arbitrary: st)
  case Nil
  then show ?case by simp
next
  case (Cons k' ks)
  show ?case
  proof (cases "resolve_property eds entities schemas schema k' st")
    case (Inl e')
    then show ?thesis by simp
  next
    case (Inr st')
    then have "k' \<noteq> k"
      using resolve_property_fails [OF assms(2), of schema st] by auto
    with Cons.prems have "k \<in> set ks" by simp
    from Cons.IH [OF this, of st'] Inr show ?thesis by simp
  qed
qed

lemma resolve_loop_fields:
  assumes "resolve_loop eds entities schemas schema ks (store, refs) = Inr (store', refs')"
    and "k' \<noteq> ''type''" "k' \<noteq> ''format''" "k' \<noteq> ''title''"
  shows "prop_of (get_own (properties_of store' schema) k0) k' =
         prop_of (get_own (properties_of store schema) k0) k'"
  using assms(1)
proof (induction ks arbitrary: store refs)
  case Nil
  then show ?case by simp
next
  case (Cons k ks)
  from Cons.prems obtain store1 refs1 where
    step: "resolve_property eds entities schemas schema k (store, refs) = Inr (store1, refs1)"
    and rest: "resolve_loop eds entities schemas schema ks (store1, refs1) = Inr (store', refs')"
    by (auto split: sum.splits)
  from Cons.IH [OF rest] resolve_property_fields [OF step assms(2-4), of k0]
  show ?case by simp
qed

lemma filter_keys_sublist:
  "filter_keys p ks = Inr ks' \<Longrightarrow> ks' = filter (\<lambda>k. p k = Inr True) ks"
proof (induction ks arbitrary: ks')
  case Nil
  then show ?case by simp
next
  case (Cons k ks)
  from Cons.prems obtain b rest where b: "p k = Inr b" and rest: "filter_keys p ks = Inr rest"
    and ks': "ks' = (if b then k # rest else rest)"
    by (simp split: sum.splits)
  from Cons.IH [OF rest] b ks' show ?case by simp
qed

lemma filter_keys_set:
  "filter_keys p ks = Inr ks' \<Longrightarrow> set ks' = {k \<in> set ks. p k = Inr True}"
  by (drule filter_keys_sublist) simp

subsection \<open>The whole call\<close>

lemma strict_eq_string [simp]: "strict_eq x (JStr s) \<longleftrightarrow> x = JStr s"
  by (cases x) auto

lemma is_uri_string_iff:
  "is_uri_string c k = Inr True \<longleftrightarrow>
     prop_of (get_own c k) ''type'' = JStr ''string'' \<and>
     prop_of (get_own c k) ''format'' = JStr ''uri''"
  by (cases "get_own c k") (auto simp: is_uri_string_def prop_of_def split: sum.splits)

lemma uri_string_is_object:
  "prop_of p ''type'' = JStr ''string'' \<Longrightarrow> is_object p"
  by (cases p) (auto simp: prop_of_def is_object_iff)

lemma object_keys_value: "object_keys v = Inr ks \<Longrightarrow> ks = map fst (entries v)"
  by (cases v) auto

lemma resolve_references_success:
  assumes "resolve_references store entity schema entities schemas data = Inr (refs, store')"
  obtains eds relevant where
    "entity_descriptors data entity = Inr eds"
    "filter_keys (is_uri_string (properties_of store schema))
        (map fst (entries (properties_of store schema))) = Inr relevant"
    "resolve_loop eds entities schemas schema relevant (store, []) = Inr (store', refs)"
proof -
  from assms obtain eds properties ks relevant where
    eds: "entity_descriptors data entity = Inr eds"
    and pr: "get_prop (store schema) ''properties'' = Inr properties"
    and ks: "object_keys properties = Inr ks"
    and rel: "filter_keys (is_uri_string properties) ks = Inr relevant"
    and loop: "resolve_loop eds entities schemas schema relevant (store, []) = Inr (store', refs)"
    unfolding resolve_references_def
    by (auto split: sum.splits prod.splits)
  have "properties = properties_of store schema"
    using get_prop_value [OF pr] by (simp add: properties_of_def)
  with ks rel eds loop that show ?thesis
    by (auto dest: object_keys_value)
qed

lemma resolve_success:
  assumes "resolveUrlStringReferences client w store entity schema entities schemas
             = Inr (refs, store', w')"
  obtains data eds relevant where
    "client w (href entity) (Some ''application/alps+json'') = (Some data, w')"
    "entity_descriptors data entity = Inr eds"
    "filter_keys (is_uri_string (properties_of store schema))
        (map fst (entries (properties_of store schema))) = Inr relevant"
    "resolve_loop eds entities schemas schema relevant (store, []) = Inr (store', refs)"
proof -
  from assms obtain data where
    f: "client w (href entity) (Some ''application/alps+json'') = (Some data, w')"
    and r: "resolve_references store entity schema entities schemas data = Inr (refs, store')"
    unfolding resolveUrlStringReferences_def
    by (auto split: sum.splits prod.splits option.splits)
  from r obtain eds relevant where
    "entity_descriptors data entity = Inr eds"
    "filter_keys (is_uri_string (properties_of store schema))
        (map fst (entries (properties_of store schema))) = Inr relevant"
    "resolve_loop eds entities schemas schema relevant (store, []) = Inr (store', refs)"
    by (rule resolve_references_success)
  with f that show ?thesis by blast
qed

lemma resolve_failure:
  "resolveUrlStringReferences client w store entity schema entities schemas = Inl e \<Longrightarrow>
   e = resolve_failed entity"
  unfolding resolveUrlStringReferences_def
  by (auto split: sum.splits prod.splits option.splits)

lemma first_index_distinct:
  "distinct xs \<Longrightarrow> j < length xs \<Longrightarrow> first_index (xs ! j) xs = int j"
proof (induction xs arbitrary: j)
  case Nil
  then show ?case by simp
next
  case (Cons x xs)
  show ?case
  proof (cases j)
    case 0
    then show ?thesis by simp
  next
    case (Suc j')
    with Cons.prems have "x \<noteq> xs ! j'" "j' < length xs" "distinct xs" by auto
    with Cons.IH [of j'] Suc show ?thesis by (simp add: Let_def)
  qed
qed

subsection \<open>What the resolver leaves alone\<close>

text \<open>C2: for every schema on which \<open>resolveUrlStringReferences\<close> returns, every property
  of \<open>schema.properties\<close> that is not both of type \<open>string\<close> and of format \<open>uri\<close> is after
  the call the value it was before: no field of it is added, removed or rewritten. The
  keys of \<open>schema.properties\<close> and their order stay as well, and in every property, also
  one that is rewritten, whatever lies under a key other than \<open>type\<close>, \<open>format\<close> and
  \<open>title\<close> stays, so that the properties nested in it are not touched either.\<close>

theorem resolver_frame:
  assumes run: "resolveUrlStringReferences client w store entity schema entities schemas
             = Inr (refs, store', w')"
    and other: "\<not> (prop_of (get_own (properties_of store schema) k) ''type'' = JStr ''string'' \<and>
             prop_of (get_own (properties_of store schema) k) ''format'' = JStr ''uri'')"
  shows "get_own (properties_of store' schema) k = get_own (properties_of store schema) k
       \<and> map fst (entries (properties_of store' schema))
           = map fst (entries (properties_of store schema))
       \<and> (\<forall>k0 k'. k' \<noteq> ''type'' \<longrightarrow> k' \<noteq> ''format'' \<longrightarrow> k' \<noteq> ''title'' \<longrightarrow>
             prop_of (get_own (properties_of store' schema) k0) k'
               = prop_of (get_own (properties_of store schema) k0) k')"
proof -
  from run obtain data eds relevant where
    rel: "filter_keys (is_uri_string (properties_of store schema))
        (map fst (entries (properties_of store schema))) = Inr relevant"
    and loop: "resolve_loop eds entities schemas schema relevant (store, []) = Inr (store', refs)"
    by (rule resolve_success)
  have "k \<notin> set relevant"
    using filter_keys_set [OF rel] other by (simp add: is_uri_string_iff)
  moreover note post = resolve_loop_post [OF loop]
  ultimately have same:
    "get_own (properties_of store' schema) k = get_own (properties_of store schema) k"
    using post [THEN conjunct2, THEN conjunct2, THEN conjunct1] by simp
  have keys: "map fst (entries (properties_of store' schema))
           = map fst (entries (properties_of store schema))"
    using post [THEN conjunct2, THEN conjunct2, THEN conjunct2, THEN conjunct1] .
  have fields: "prop_of (get_own (properties_of store' schema) k0) k'
               = prop_of (get_own (properties_of store schema) k0) k'"
    if "k' \<noteq> ''type''" "k' \<noteq> ''format''" "k' \<noteq> ''title''" for k0 k'
    using loop that by (rule resolve_loop_fields)
  from same keys fields show ?thesis by blast
qed

subsection \<open>What the resolver does to a reference\<close>

text \<open>C1: let the property \<open>k\<close> of the schema have type \<open>string\<close> and format \<open>uri\<close>, let the
  \<open>rt\<close> of its affordance descriptor, cut before the last \<open>#\<close>, be \<open>h\<close>, and let the first
  entity with the \<open>href\<close> \<open>h\<close> be \<open>E = entities ! j\<close>. The resolver is called as the generator
  calls it: for the entity and the schema at one index \<open>i\<close> of the two lists, which have
  the same length and hold no entity and no schema object twice. Then, when the call
  returns, the property has the type \<open>object\<close>, no \<open>format\<close> field and the title of the
  schema of \<open>E\<close>, and the schema of \<open>E\<close> is in the returned list if and only if \<open>E\<close> is not
  the entity being resolved.\<close>

theorem resolver_postcondition:
  assumes run: "resolveUrlStringReferences client w store entity schema entities schemas
             = Inr (refs, store', w')"
    and fetch: "client w (href entity) (Some ''application/alps+json'') = (Some data, w1)"
    and eds: "entity_descriptors data entity = Inr eds"
    and type: "prop_of (get_own (properties_of store schema) k) ''type'' = JStr ''string''"
    and format: "prop_of (get_own (properties_of store schema) k) ''format'' = JStr ''uri''"
    and rt: "referenced_href eds k = Inr h"
    and known: "find (\<lambda>e. strict_eq (href e) (JStr h)) entities = Some (entities ! j)"
    and j: "j < length entities"
    and i: "i < length entities"
    and entity: "entity = entities ! i"
    and schema: "schema = schemas ! i"
    and aligned: "length schemas = length entities"
    and entities: "distinct entities"
    and schemas: "distinct schemas"
  shows "prop_of (get_own (properties_of store' schema) k) ''type'' = JStr ''object''
       \<and> ''format'' \<notin> fst ` set (named (get_own (properties_of store' schema) k))
       \<and> prop_of (get_own (properties_of store' schema) k) ''title''
           = prop_of (store (schemas ! j)) ''title''
       \<and> (schemas ! j \<in> set refs \<longleftrightarrow> entities ! j \<noteq> entity)"
proof -
  let ?c = "properties_of store schema"
  from run obtain data' eds' relevant where
    fetch': "client w (href entity) (Some ''application/alps+json'') = (Some data', w')"
    and eds': "entity_descriptors data' entity = Inr eds'"
    and rel: "filter_keys (is_uri_string ?c) (map fst (entries ?c)) = Inr relevant"
    and loop: "resolve_loop eds' entities schemas schema relevant (store, []) = Inr (store', refs)"
    by (rule resolve_success)
  have same: "eds' = eds" using fetch fetch' eds eds' by simp
  have "k \<in> fst ` set (entries ?c)"
    using type by (intro get_own_object_key uri_string_is_object)
  then have k: "k \<in> set relevant"
    using filter_keys_set [OF rel] type format by (simp add: is_uri_string_iff)
  note post = resolve_loop_post [OF loop]
  from post [THEN conjunct2, THEN conjunct2, THEN conjunct2, THEN conjunct2, THEN conjunct1] k
  obtain a where a: "referenced_schema eds entities schemas k = Inr a"
    and r: "retyped (get_own (properties_of store' schema) k) (prop_of (store a) ''title'')"
    unfolding same by blast
  have "index_of entities (Some (entities ! j)) = int j"
    using entities j by (simp add: index_of_def first_index_distinct)
  then have "referenced_schema eds entities schemas k = Inr (schemas ! j)"
    using rt known j aligned by (simp add: referenced_schema_def schema_at_def)
  with a have a_def: "a = schemas ! j" by simp
  from post [THEN conjunct2, THEN conjunct2, THEN conjunct2, THEN conjunct2, THEN conjunct2]
  obtain targets where t: "map (referenced_schema eds entities schemas) relevant = map Inr targets"
    and refs: "refs = filter (\<lambda>b. b \<noteq> schema) targets"
    unfolding same by auto
  have "Inr a \<in> set (map (referenced_schema eds entities schemas) relevant)"
    using k a by force
  then have "a \<in> set targets" unfolding t by auto
  then have member: "a \<in> set refs \<longleftrightarrow> a \<noteq> schema" by (simp add: refs)
  have "a \<noteq> schema \<longleftrightarrow> j \<noteq> i"
    unfolding a_def schema using schemas i j aligned by (simp add: nth_eq_iff_index_eq)
  also have "\<dots> \<longleftrightarrow> entities ! j \<noteq> entity"
    unfolding entity using entities i j by (simp add: nth_eq_iff_index_eq)
  finally have "a \<noteq> schema \<longleftrightarrow> entities ! j \<noteq> entity" .
  with member r show ?thesis
    unfolding retyped_def a_def by simp
qed

subsection \<open>Failures\<close>

text \<open>C8, as amended: \<open>resolveUrlStringReferences\<close> ends the run with the fatal error that
  names the entity (\<open>console.error\<close> with the entity's name, then \<open>process.exit(4)\<close>) whenever
  the affordance-descriptor document cannot be fetched, and whenever the document is
  fetched and a property of type \<open>string\<close> and format \<open>uri\<close> has no descriptor of its name
  among the entity's descriptors or its descriptor's \<open>rt\<close> names no entity of the list; in
  no such case does the resolver return. These are not the only cases: whatever the
  input, the call either returns or ends the run with that same error.\<close>

theorem resolver_failures_are_fatal:
  "((fst (client w (href entity) (Some ''application/alps+json'')) = None
     \<or> (client w (href entity) (Some ''application/alps+json'') = (Some data, w1)
        \<and> entity_descriptors data entity = Inr eds
        \<and> prop_of (get_own (properties_of store schema) k) ''type'' = JStr ''string''
        \<and> prop_of (get_own (properties_of store schema) k) ''format'' = JStr ''uri''
        \<and> (array_find eds (has_name k) = Inr JUndefined
           \<or> (referenced_href eds k = Inr h
              \<and> find (\<lambda>e. strict_eq (href e) (JStr h)) entities = None))))
    \<longrightarrow> resolveUrlStringReferences client w store entity schema entities schemas
          = Inl (Exit 4 (''Could not collect schema references for '' @ [CHR 0x27]
                         @ name entity @ [CHR 0x27] @ ''.'')))
   \<and> (resolveUrlStringReferences client w store entity schema entities schemas
          = Inl (Exit 4 (''Could not collect schema references for '' @ [CHR 0x27]
                         @ name entity @ [CHR 0x27] @ ''.''))
      \<or> (\<exists>refs store' w'.
            resolveUrlStringReferences client w store entity schema entities schemas
              = Inr (refs, store', w')))"
proof -
  let ?c = "properties_of store schema"
  let ?run = "resolveUrlStringReferences client w store entity schema entities schemas"
  let ?fatal = "Exit 4 (''Could not collect schema references for '' @ [CHR 0x27]
                         @ name entity @ [CHR 0x27] @ ''.'')"
  have fatal: "?run = Inl ?fatal" if "?run = Inl e" for e
    using that resolve_failure [OF that] by (simp add: resolve_failed_def)
  have either: "?run = Inl ?fatal \<or> (\<exists>refs store' w'. ?run = Inr (refs, store', w'))"
  proof (cases ?run)
    case (Inl e)
    then show ?thesis using fatal by blast
  next
    case (Inr result)
    then show ?thesis by (cases result) auto
  qed
  have no_fetch: "?run = Inl ?fatal"
    if "fst (client w (href entity) (Some ''application/alps+json'')) = None"
    using that
    by (cases "client w (href entity) (Some ''application/alps+json'')")
       (simp add: resolveUrlStringReferences_def resolve_failed_def)
  have no_match: "?run = Inl ?fatal"
    if fetch: "client w (href entity) (Some ''application/alps+json'') = (Some data, w1)"
      and eds: "entity_descriptors data entity = Inr eds"
      and type: "prop_of (get_own ?c k) ''type'' = JStr ''string''"
      and format: "prop_of (get_own ?c k) ''format'' = JStr ''uri''"
      and unmatched: "array_find eds (has_name k) = Inr JUndefined \<or>
         (referenced_href eds k = Inr h \<and>
          find (\<lambda>e. strict_eq (href e) (JStr h)) entities = None)"
  proof -
    from unmatched obtain e where no_target: "referenced_schema eds entities schemas k = Inl e"
      by (auto simp: referenced_schema_def referenced_href_def index_of_def schema_at_def)
    have "\<exists>e. ?run = Inl e"
    proof (cases ?run)
      case (Inl e)
      then show ?thesis by blast
    next
      case (Inr result)
      obtain refs store' w' where "result = (refs, store', w')" by (cases result) auto
      with Inr have run: "?run = Inr (refs, store', w')" by simp
      from run obtain data' eds' relevant where
        fetch': "client w (href entity) (Some ''application/alps+json'') = (Some data', w')"
        and eds': "entity_descriptors data' entity = Inr eds'"
        and rel: "filter_keys (is_uri_string ?c) (map fst (entries ?c)) = Inr relevant"
        and loop: "resolve_loop eds' entities schemas schema relevant (store, [])
                     = Inr (store', refs)"
        by (rule resolve_success)
      have same: "eds' = eds" using fetch fetch' eds eds' by simp
      have "k \<in> fst ` set (entries ?c)"
        using type by (intro get_own_object_key uri_string_is_object)
      then have k: "k \<in> set relevant"
        using filter_keys_set [OF rel] type format by (simp add: is_uri_string_iff)
      from resolve_loop_fails [OF k no_target, of schema "(store, [])"] loop
      show ?thesis unfolding same by simp
    qed
    then show ?thesis using fatal by blast
  qed
  from no_fetch no_match either show ?thesis by blast
qed

subsection \<open>Concrete runs of the resolver\<close>

lemmas resolver_eval =
  resolveUrlStringReferences_def resolve_references_def resolve_property_def
  entity_descriptors_def referenced_href_def has_href_def has_name_def is_uri_string_def
  strip_fragment_def index_of_def schema_at_def properties_of_def write_property_def
  resolve_failed_def prop_of_def get_own_def lookup_def

text \<open>C9: the returned list is not deduplicated. In the schema of \<open>books\<close> the properties
  \<open>author\<close> and \<open>editor\<close> are both of type \<open>string\<close> and format \<open>uri\<close>, and the descriptors of
  both point to the entity \<open>authors\<close>, which is not the entity being resolved. The call
  returns the schema of \<open>authors\<close> (the object at address 1) twice.\<close>

theorem resolver_returns_duplicates:
  "resolveUrlStringReferences
     (\<lambda>w url accept.
        (if url = JStr ''/api/books'' \<and> accept = Some ''application/alps+json''
         then Some (JObj [(''alps'', JObj [(''descriptors'', JArr
                [JObj [(''id'', JStr ''book-representation''), (''href'', JStr ''/api/books''),
                       (''descriptors'', JArr
                          [JObj [(''name'', JStr ''author''),
                                 (''rt'', JStr ''/api/authors#author-representation'')],
                           JObj [(''name'', JStr ''editor''),
                                 (''rt'', JStr ''/api/authors#author-representation'')]] [])]]
                [])])])
         else None, Suc w))
     (0 :: nat)
     ((\<lambda>a. JUndefined)
        (0 := JObj [(''title'', JStr ''Book''),
                    (''properties'', JObj
                       [(''author'', JObj [(''type'', JStr ''string''),
                                           (''format'', JStr ''uri'')]),
                        (''editor'', JObj [(''type'', JStr ''string''),
                                           (''format'', JStr ''uri'')])])],
         1 := JObj [(''title'', JStr ''Author''), (''properties'', JObj [])]))
     \<lparr>name = ''books'', href = JStr ''/api/books''\<rparr>
     0
     [\<lparr>name = ''books'', href = JStr ''/api/books''\<rparr>,
      \<lparr>name = ''authors'', href = JStr ''/api/authors''\<rparr>]
     [0, 1]
   = Inr ([1, 1],
          (\<lambda>a. JUndefined)
            (0 := JObj [(''title'', JStr ''Book''),
                    (''properties'', JObj
                       [(''author'', JObj [(''type'', JStr ''object''),
                                           (''title'', JStr ''Author'')]),
                        (''editor'', JObj [(''type'', JStr ''object''),
                                           (''title'', JStr ''Author'')])])],
             1 := JObj [(''title'', JStr ''Author''), (''properties'', JObj [])]),
          1)"
  by (simp add: resolver_eval fun_eq_iff)

text \<open>C8 as stated fails: here the document is fetched and holds the descriptors of the
  entity, and the schema has no property of format \<open>uri\<close>, so neither of the listed cases
  applies; but the schema has no \<open>properties\<close> member, \<open>Object.keys(schema.properties)\<close>
  throws, and the run ends with the fatal error.\<close>

theorem resolver_fatal_without_listed_cause:
  "resolveUrlStringReferences
     (\<lambda>w url accept.
        (Some (JObj [(''alps'', JObj [(''descriptors'', JArr
                [JObj [(''id'', JStr ''book-representation''), (''href'', JStr ''/api/books''),
                       (''descriptors'', JArr [] [])]] [])])]),
         Suc w))
     (0 :: nat)
     ((\<lambda>a. JUndefined)
        (0 := JObj [(''title'', JStr ''Book''), (''type'', JStr ''object'')]))
     \<lparr>name = ''books'', href = JStr ''/api/books''\<rparr>
     0
     [\<lparr>name = ''books'', href = JStr ''/api/books''\<rparr>]
     [0]
   = Inl (Exit 4 (''Could not collect schema references for '' @ [CHR 0x27] @ ''books''
                   @ [CHR 0x27] @ ''.''))"
  by (simp add: resolver_eval)

text \<open>The fatal error for a reference to an entity that is not in the list.\<close>

theorem resolver_failures_are_fatal_witness:
  "resolveUrlStringReferences
     (\<lambda>w url accept.
        (Some (JObj [(''alps'', JObj [(''descriptors'', JArr
                [JObj [(''id'', JStr ''book-representation''), (''href'', JStr ''/api/books''),
                       (''descriptors'', JArr
                          [JObj [(''name'', JStr ''author''),
                                 (''rt'', JStr ''/api/authors#author-representation'')]] [])]]
                [])])]),
         Suc w))
     (0 :: nat)
     ((\<lambda>a. JUndefined)
        (0 := JObj [(''title'', JStr ''Book''),
                    (''properties'', JObj
                       [(''author'', JObj [(''type'', JStr ''string''),
                                           (''format'', JStr ''uri'')])])]))
     \<lparr>name = ''books'', href = JStr ''/api/books''\<rparr>
     0
     [\<lparr>name = ''books'', href = JStr ''/api/books''\<rparr>]
     [0]
   = Inl (Exit 4 (''Could not collect schema references for '' @ [CHR 0x27] @ ''books''
                   @ [CHR 0x27] @ ''.''))"
proof -
  let ?eds = "JArr [JObj [(''name'', JStr ''author''),
                          (''rt'', JStr ''/api/authors#author-representation'')]] []"
  let ?data = "JObj [(''alps'', JObj [(''descriptors'', JArr
                [JObj [(''id'', JStr ''book-representation''), (''href'', JStr ''/api/books''),
                       (''descriptors'', ?eds)]] [])])]"
  let ?client = "\<lambda>w url accept. (Some ?data, Suc w)"
  let ?store = "(\<lambda>a. JUndefined)
        (0 := JObj [(''title'', JStr ''Book''),
                    (''properties'', JObj
                       [(''author'', JObj [(''type'', JStr ''string''),
                                           (''format'', JStr ''uri'')])])])"
  let ?books = "\<lparr>name = ''books'', href = JStr ''/api/books''\<rparr>"
  have cause:
    "fst (?client (0 :: nat) (href ?books) (Some ''application/alps+json'')) = None
     \<or> (?client (0 :: nat) (href ?books) (Some ''application/alps+json'') = (Some ?data, 1)
        \<and> entity_descriptors ?data ?books = Inr ?eds
        \<and> prop_of (get_own (properties_of ?store 0) ''author'') ''type'' = JStr ''string''
        \<and> prop_of (get_own (properties_of ?store 0) ''author'') ''format'' = JStr ''uri''
        \<and> (array_find ?eds (has_name ''author'') = Inr JUndefined
           \<or> (referenced_href ?eds ''author'' = Inr ''/api/authors''
              \<and> find (\<lambda>e. strict_eq (href e) (JStr ''/api/authors'')) [?books] = None)))"
    by (simp add: resolver_eval)
  from resolver_failures_are_fatal
         [where client = ?client and w = 0 and store = ?store and entity = ?books
            and schema = 0 and entities = "[?books]" and schemas = "[0]" and data = ?data
            and ?w1.0 = 1 and eds = ?eds and k = "''author''" and h = "''/api/authors''",
          THEN conjunct1, THEN mp, OF cause]
  show ?thesis by simp
qed

text \<open>The scenario of the specification, with a plain property \<open>name\<close>, the references
  \<open>author\<close> and \<open>editor\<close> to the entity \<open>authors\<close>, and the reference \<open>sequel\<close> of \<open>books\<close> to
  itself.\<close>

theorem resolver_postcondition_witness:
  "\<exists>refs store' w'.
     resolveUrlStringReferences
       (\<lambda>w url accept.
          (Some (JObj [(''alps'', JObj [(''descriptors'', JArr
                [JObj [(''id'', JStr ''book-representation''), (''href'', JStr ''/api/books''),
                       (''descriptors'', JArr
                          [JObj [(''name'', JStr ''name'')],
                           JObj [(''name'', JStr ''author''),
                                 (''rt'', JStr ''/api/authors#author-representation'')],
                           JObj [(''name'', JStr ''sequel''),
                                 (''rt'', JStr ''/api/books#book-representation'')]] [])]]
                [])])]),
           Suc w))
       (0 :: nat)
       ((\<lambda>a. JUndefined)
          (0 := JObj [(''title'', JStr ''Book''),
                      (''properties'', JObj
                         [(''name'', JObj [(''type'', JStr ''string'')]),
                          (''author'', JObj [(''type'', JStr ''string''),
                                             (''format'', JStr ''uri'')]),
                          (''sequel'', JObj [(''type'', JStr ''string''),
                                             (''format'', JStr ''uri'')])])],
           1 := JObj [(''title'', JStr ''Author''), (''properties'', JObj [])]))
       \<lparr>name = ''books'', href = JStr ''/api/books''\<rparr>
       0
       [\<lparr>name = ''books'', href = JStr ''/api/books''\<rparr>,
        \<lparr>name = ''authors'', href = JStr ''/api/authors''\<rparr>]
       [0, 1]
     = Inr (refs, store', w')
     \<and> prop_of (get_own (properties_of store' 0) ''author'') ''type'' = JStr ''object''
     \<and> ''format'' \<notin> fst ` set (named (get_own (properties_of store' 0) ''author''))
     \<and> prop_of (get_own (properties_of store' 0) ''author'') ''title'' = JStr ''Author''
     \<and> 1 \<in> set refs"
proof -
  let ?eds = "JArr [JObj [(''name'', JStr ''name'')],
                    JObj [(''name'', JStr ''author''),
                          (''rt'', JStr ''/api/authors#author-representation'')],
                    JObj [(''name'', JStr ''sequel''),
                          (''rt'', JStr ''/api/books#book-representation'')]] []"
  let ?data = "JObj [(''alps'', JObj [(''descriptors'', JArr
                [JObj [(''id'', JStr ''book-representation''), (''href'', JStr ''/api/books''),
                       (''descriptors'', ?eds)]] [])])]"
  let ?client = "\<lambda>w url accept. (Some ?data, Suc w)"
  let ?store = "(\<lambda>a. JUndefined)
          (0 := JObj [(''title'', JStr ''Book''),
                      (''properties'', JObj
                         [(''name'', JObj [(''type'', JStr ''string'')]),
                          (''author'', JObj [(''type'', JStr ''string''),
                                             (''format'', JStr ''uri'')]),
                          (''sequel'', JObj [(''type'', JStr ''string''),
                                             (''format'', JStr ''uri'')])])],
           1 := JObj [(''title'', JStr ''Author''), (''properties'', JObj [])])"
  let ?after = "(\<lambda>a. JUndefined)
          (0 := JObj [(''title'', JStr ''Book''),
                      (''properties'', JObj
                         [(''name'', JObj [(''type'', JStr ''string'')]),
                          (''author'', JObj [(''type'', JStr ''object''),
                                             (''title'', JStr ''Author'')]),
                          (''sequel'', JObj [(''type'', JStr ''object''),
                                             (''title'', JStr ''Book'')])])],
           1 := JObj [(''title'', JStr ''Author''), (''properties'', JObj [])])"
  let ?books = "\<lparr>name = ''books'', href = JStr ''/api/books''\<rparr>"
  let ?authors = "\<lparr>name = ''authors'', href = JStr ''/api/authors''\<rparr>"
  let ?entities = "[?books, ?authors]"
  have run: "resolveUrlStringReferences ?client (0 :: nat) ?store ?books 0 ?entities [0, 1]
               = Inr ([1], ?after, 1)"
    by (simp add: resolver_eval fun_eq_iff)
  have fetch: "?client (0 :: nat) (href ?books) (Some ''application/alps+json'')
                 = (Some ?data, 1)" by simp
  have eds: "entity_descriptors ?data ?books = Inr ?eds"
    by (simp add: resolver_eval)
  have type: "prop_of (get_own (properties_of ?store 0) ''author'') ''type'' = JStr ''string''"
    by (simp add: resolver_eval)
  have format: "prop_of (get_own (properties_of ?store 0) ''author'') ''format'' = JStr ''uri''"
    by (simp add: resolver_eval)
  have rt: "referenced_href ?eds ''author'' = Inr ''/api/authors''"
    by (simp add: resolver_eval)
  have known: "find (\<lambda>e. strict_eq (href e) (JStr ''/api/authors'')) ?entities
                 = Some (?entities ! 1)" by simp
  have j: "1 < length ?entities" and i: "0 < length ?entities" by simp_all
  have entity: "?books = ?entities ! 0" and schema: "(0 :: nat) = [0, 1] ! 0" by simp_all
  have aligned: "length [0 :: nat, 1] = length ?entities" by simp
  have entities: "distinct ?entities" and schemas: "distinct [0 :: nat, 1]" by simp_all
  from resolver_postcondition
         [where client = ?client and w = 0 and store = ?store and entity = ?books
            and schema = 0 and entities = ?entities and schemas = "[0, 1]",
          OF run fetch eds type format rt known j i entity schema aligned entities schemas]
  have "prop_of (get_own (properties_of ?after 0) ''author'') ''type'' = JStr ''object''
     \<and> ''format'' \<notin> fst ` set (named (get_own (properties_of ?after 0) ''author''))
     \<and> prop_of (get_own (properties_of ?after 0) ''author'') ''title'' = JStr ''Author''
     \<and> 1 \<in> set [1 :: nat]"
    by (simp add: resolver_eval)
  with run show ?thesis by blast
qed

theorem resolver_frame_witness:
  "\<exists>refs store' w'.
     resolveUrlStringReferences
       (\<lambda>w url accept.
          (Some (JObj [(''alps'', JObj [(''descriptors'', JArr
                [JObj [(''id'', JStr ''book-representation''), (''href'', JStr ''/api/books''),
                       (''descriptors'', JArr
                          [JObj [(''name'', JStr ''name'')],
                           JObj [(''name'', JStr ''author''),
                                 (''rt'', JStr ''/api/authors#author-representation'')]] [])]]
                [])])]),
           Suc w))
       (0 :: nat)
       ((\<lambda>a. JUndefined)
          (0 := JObj [(''title'', JStr ''Book''),
                      (''properties'', JObj
                         [(''name'', JObj [(''title'', JStr ''Name''), (''type'', JStr ''string'')]),
                          (''author'', JObj [(''type'', JStr ''string''),
                                             (''format'', JStr ''uri'')])])],
           1 := JObj [(''title'', JStr ''Author''), (''properties'', JObj [])]))
       \<lparr>name = ''books'', href = JStr ''/api/books''\<rparr>
       0
       [\<lparr>name = ''books'', href = JStr ''/api/books''\<rparr>,
        \<lparr>name = ''authors'', href = JStr ''/api/authors''\<rparr>]
       [0, 1]
     = Inr (refs, store', w')
     \<and> get_own (properties_of store' 0) ''name''
         = JObj [(''title'', JStr ''Name''), (''type'', JStr ''string'')]
     \<and> map fst (entries (properties_of store' 0)) = [''name'', ''author'']"
proof -
  let ?data = "JObj [(''alps'', JObj [(''descriptors'', JArr
                [JObj [(''id'', JStr ''book-representation''), (''href'', JStr ''/api/books''),
                       (''descriptors'', JArr
                          [JObj [(''name'', JStr ''name'')],
                           JObj [(''name'', JStr ''author''),
                                 (''rt'', JStr ''/api/authors#author-representation'')]] [])]]
                [])])]"
  let ?client = "\<lambda>w url accept. (Some ?data, Suc w)"
  let ?store = "(\<lambda>a. JUndefined)
          (0 := JObj [(''title'', JStr ''Book''),
                      (''properties'', JObj
                         [(''name'', JObj [(''title'', JStr ''Name''), (''type'', JStr ''string'')]),
                          (''author'', JObj [(''type'', JStr ''string''),
                                             (''format'', JStr ''uri'')])])],
           1 := JObj [(''title'', JStr ''Author''), (''properties'', JObj [])])"
  let ?after = "(\<lambda>a. JUndefined)
          (0 := JObj [(''title'', JStr ''Book''),
                      (''properties'', JObj
                         [(''name'', JObj [(''title'', JStr ''Name''), (''type'', JStr ''string'')]),
                          (''author'', JObj [(''type'', JStr ''object''),
                                             (''title'', JStr ''Author'')])])],
           1 := JObj [(''title'', JStr ''Author''), (''properties'', JObj [])])"
  let ?books = "\<lparr>name = ''books'', href = JStr ''/api/books''\<rparr>"
  let ?authors = "\<lparr>name = ''authors'', href = JStr ''/api/authors''\<rparr>"
  have run: "resolveUrlStringReferences ?client (0 :: nat) ?store ?books 0 [?books, ?authors]
               [0, 1] = Inr ([1], ?after, 1)"
    by (simp add: resolver_eval fun_eq_iff)
  have other: "\<not> (prop_of (get_own (properties_of ?store 0) ''name'') ''type'' = JStr ''string'' \<and>
             prop_of (get_own (properties_of ?store 0) ''name'') ''format'' = JStr ''uri'')"
    by (simp add: resolver_eval)
  from resolver_frame
         [where client = ?client and w = 0 and store = ?store and entity = ?books
            and schema = 0 and entities = "[?books, ?authors]" and schemas = "[0, 1]",
          OF run other, THEN conjunct1]
       resolver_frame
         [where client = ?client and w = 0 and store = ?store and entity = ?books
            and schema = 0 and entities = "[?books, ?authors]" and schemas = "[0, 1]",
          OF run other, THEN conjunct2, THEN conjunct1]
  have kept: "get_own (properties_of ?after 0) ''name''
         = JObj [(''title'', JStr ''Name''), (''type'', JStr ''string'')]
     \<and> map fst (entries (properties_of ?after 0)) = [''name'', ''author'']"
    by (simp add: resolver_eval)
  show ?thesis
  proof (intro exI conjI)
    show "resolveUrlStringReferences ?client (0 :: nat) ?store ?books 0 [?books, ?authors]
               [0, 1] = Inr ([1], ?after, 1)" by (rule run)
    show "get_own (properties_of ?after 0) ''name''
         = JObj [(''title'', JStr ''Name''), (''type'', JStr ''string'')]"
      using kept by (rule conjunct1)
    show "map fst (entries (properties_of ?after 0)) = [''name'', ''author'']"
      using kept by (rule conjunct2)
  qed
qed


end
